theory Spec2Isabelle
  imports Main "HOL-Library.Sublist" "HOL-Library.Multiset"
begin

section \<open>The error classes (src/errors.ts)\<close>

text \<open>
  The library declares three classes: \<open>HookError extends Error\<close>,
  \<open>HookNotFoundError extends HookError\<close> and \<open>DuplicateHookError extends HookError\<close>.
  An error object carries the class it was constructed from, its \<open>name\<close> property and
  its \<open>message\<close>.
\<close>

datatype error_class = Error | HookError | HookNotFoundError | DuplicateHookError

record js_error =
  class_of :: error_class
  error_name :: string
  error_message :: string

text \<open>The chain of classes that \<open>instanceof\<close> walks, starting at the class itself.\<close>

fun prototype_chain :: "error_class \<Rightarrow> error_class list" where
  "prototype_chain Error = [Error]"
| "prototype_chain HookError = [HookError, Error]"
| "prototype_chain HookNotFoundError = [HookNotFoundError, HookError, Error]"
| "prototype_chain DuplicateHookError = [DuplicateHookError, HookError, Error]"

definition instanceof :: "js_error \<Rightarrow> error_class \<Rightarrow> bool" where
  "instanceof e c = (c \<in> set (prototype_chain (class_of e)))"

definition new_Error :: "string \<Rightarrow> js_error" where
  "new_Error message =
     \<lparr>class_of = Error, error_name = ''Error'', error_message = message\<rparr>"

definition new_HookError :: "string \<Rightarrow> js_error" where
  "new_HookError message =
     \<lparr>class_of = HookError, error_name = ''HookError'', error_message = message\<rparr>"

definition new_HookNotFoundError :: "string \<Rightarrow> js_error" where
  "new_HookNotFoundError hookName =
     \<lparr>class_of = HookNotFoundError, error_name = ''HookNotFoundError'',
      error_message = ''Hook \"'' @ hookName @ ''\" is not registered''\<rparr>"

definition new_DuplicateHookError :: "string \<Rightarrow> js_error" where
  "new_DuplicateHookError hookName =
     \<lparr>class_of = DuplicateHookError, error_name = ''DuplicateHookError'',
      error_message = ''Hook \"'' @ hookName @ ''\" is already registered''\<rparr>"

section \<open>Callbacks and what awaiting them does\<close>

text \<open>
  A callback is held by reference: the registries compare callbacks with \<open>!==\<close>, so a
  callback is modelled by its identity, and what it does when called with a payload is
  given by a separate behaviour table. A JavaScript function may throw any value, an
  \<open>Error\<close> instance or not.
\<close>

type_synonym HookFunction = nat

datatype js_value = ErrorValue js_error | OtherValue string

text \<open>
  A callback of type \<open>(data?: T) => void | Promise<void>\<close> either returns, throws, or
  returns a promise that is fulfilled or rejected some ticks later, or that never
  settles. Time is a logical tick count; a synchronous return takes no ticks.
\<close>

datatype outcome =
    Returns
  | Throws js_value
  | Resolves nat
  | Rejects nat js_value
  | Pending

type_synonym 'd behaviour = "HookFunction \<Rightarrow> 'd \<Rightarrow> outcome"

text \<open>
  A promise, by the state it ends in and the tick at which it gets there. The promises
  the callbacks return are rejected with any value; the promise an \<open>async on\<close> returns
  is rejected with an error object.
\<close>

datatype 'e promise = Fulfilled nat | Rejected nat 'e | Unsettled

text \<open>
  \<open>Promise.resolve(hook(data))\<close> evaluated at tick \<open>t\<close>: when the callback throws, the
  exception leaves the expression and no promise is made (\<open>Inl\<close>); a plain return gives
  a promise that is already fulfilled.
\<close>

definition Promise_resolve_call ::
  "'d behaviour \<Rightarrow> HookFunction \<Rightarrow> 'd \<Rightarrow> nat \<Rightarrow> js_value + js_value promise" where
  "Promise_resolve_call beh hook data t =
     (case beh hook data of
        Returns \<Rightarrow> Inr (Fulfilled t)
      | Throws v \<Rightarrow> Inl v
      | Resolves d \<Rightarrow> Inr (Fulfilled (t + d))
      | Rejects d v \<Rightarrow> Inr (Rejected (t + d) v)
      | Pending \<Rightarrow> Inr Unsettled)"

text \<open>
  What a statement inside an async function does: it completes and control resumes at
  a tick, it raises an exception at a tick, or the function stays suspended for ever.
\<close>

datatype awaited = Resumes nat | Raised nat js_value | Suspended

definition await :: "js_value promise \<Rightarrow> awaited" where
  "await p =
     (case p of
        Fulfilled t \<Rightarrow> Resumes t
      | Rejected t v \<Rightarrow> Raised t v
      | Unsettled \<Rightarrow> Suspended)"

text \<open>\<open>await Promise.resolve(hook(data))\<close> executed at tick \<open>t\<close>.\<close>

definition call_and_await :: "'d behaviour \<Rightarrow> HookFunction \<Rightarrow> 'd \<Rightarrow> nat \<Rightarrow> awaited" where
  "call_and_await beh hook data t =
     (case Promise_resolve_call beh hook data t of
        Inl v \<Rightarrow> Raised t v
      | Inr p \<Rightarrow> await p)"

text \<open>
  The \<open>catch (error)\<close> block that all three \<open>on\<close> implementations share word for word:
  \<^verbatim>\<open>
  if (error instanceof Error) {
      throw new HookError(`Error in hook "${name}": ${error.message}`)
  } else {
      throw new HookError(`Unknown error in hook "${name}"`)
  }
  \<close>
\<close>

definition rethrow :: "string \<Rightarrow> js_value \<Rightarrow> js_error" where
  "rethrow name error =
     (case error of
        ErrorValue e \<Rightarrow>
          if instanceof e Error
          then new_HookError (''Error in hook \"'' @ name @ ''\": '' @ error_message e)
          else new_HookError (''Unknown error in hook \"'' @ name @ ''\"'')
      | OtherValue _ \<Rightarrow> new_HookError (''Unknown error in hook \"'' @ name @ ''\"''))"

text \<open>
  The result of a call of \<open>on\<close>: the callbacks it invoked, in the order of their
  invocation and each with the tick of its invocation, and the promise it returns.
  \<open>try_catch\<close> is the \<open>try { ... } catch (error) { ... }\<close> around the awaits.
\<close>

record on_result =
  invoked :: "(HookFunction \<times> nat) list"
  settled :: "js_error promise"

definition try_catch :: "string \<Rightarrow> awaited \<Rightarrow> js_error promise" where
  "try_catch name a =
     (case a of
        Resumes t \<Rightarrow> Fulfilled t
      | Raised t error \<Rightarrow> Rejected t (rethrow name error)
      | Suspended \<Rightarrow> Unsettled)"

text \<open>
  The loop \<open>for (const hook of hooksList) { await Promise.resolve(hook(data)) }\<close>
  started at tick \<open>t\<close>: the next callback is called at the tick at which the promise of
  the one before it is fulfilled; an exception or a promise that never settles ends the
  loop.
\<close>

fun for_await ::
  "'d behaviour \<Rightarrow> HookFunction list \<Rightarrow> 'd \<Rightarrow> nat \<Rightarrow> (HookFunction \<times> nat) list \<times> awaited" where
  "for_await beh [] data t = ([], Resumes t)"
| "for_await beh (hook # rest) data t =
     (case call_and_await beh hook data t of
        Resumes t' \<Rightarrow>
          (case for_await beh rest data t' of (calls, a) \<Rightarrow> ((hook, t) # calls, a))
      | Raised t' v \<Rightarrow> ([(hook, t)], Raised t' v)
      | Suspended \<Rightarrow> ([(hook, t)], Suspended))"

text \<open>
  \<open>hooksList.map((hook) => Promise.resolve(hook(data)))\<close> at tick \<open>t\<close>: \<open>map\<close> is
  synchronous, so every callback it reaches is called at tick \<open>t\<close>; a callback that
  throws ends the \<open>map\<close> with that exception (\<open>Inl\<close>).
\<close>

fun Array_map_call ::
  "'d behaviour \<Rightarrow> HookFunction list \<Rightarrow> 'd \<Rightarrow> nat
     \<Rightarrow> (HookFunction \<times> nat) list \<times> (js_value + js_value promise list)" where
  "Array_map_call beh [] data t = ([], Inr [])"
| "Array_map_call beh (hook # rest) data t =
     (case Promise_resolve_call beh hook data t of
        Inl v \<Rightarrow> ([(hook, t)], Inl v)
      | Inr p \<Rightarrow>
          (case Array_map_call beh rest data t of
             (calls, Inl v) \<Rightarrow> ((hook, t) # calls, Inl v)
           | (calls, Inr ps) \<Rightarrow> ((hook, t) # calls, Inr (p # ps))))"

text \<open>
  \<open>Promise.all\<close>, made at tick \<open>t\<close>: it is rejected as soon as one of the promises is,
  with that promise's value (the earliest rejection; among rejections of the same tick
  the model takes the leftmost); with no rejection it is fulfilled once every promise
  is, and never when one of them never settles.
\<close>

fun first_rejection :: "js_value promise list \<Rightarrow> (nat \<times> js_value) option" where
  "first_rejection [] = None"
| "first_rejection (Rejected t v # ps) =
     (case first_rejection ps of
        Some (t', v') \<Rightarrow> if t' < t then Some (t', v') else Some (t, v)
      | None \<Rightarrow> Some (t, v))"
| "first_rejection (p # ps) = first_rejection ps"

fun last_fulfilment :: "nat \<Rightarrow> js_value promise list \<Rightarrow> nat" where
  "last_fulfilment t [] = t"
| "last_fulfilment t (Fulfilled t' # ps) = max t' (last_fulfilment t ps)"
| "last_fulfilment t (p # ps) = last_fulfilment t ps"

definition Promise_all :: "nat \<Rightarrow> js_value promise list \<Rightarrow> js_value promise" where
  "Promise_all t ps =
     (case first_rejection ps of
        Some (t', v) \<Rightarrow> Rejected t' v
      | None \<Rightarrow> if Unsettled \<in> set ps then Unsettled else Fulfilled (last_fulfilment t ps))"

section \<open>The insertion-ordered Map of JavaScript\<close>

text \<open>
  A JavaScript \<open>Map\<close> iterates its keys in insertion order; \<open>set\<close> on a key that is
  present keeps the key's position. It is an association list here.
\<close>

type_synonym ('k, 'v) js_map = "('k \<times> 'v) list"

fun Map_get :: "('k, 'v) js_map \<Rightarrow> 'k \<Rightarrow> 'v option" where
  "Map_get [] k = None"
| "Map_get ((k', v) # m) k = (if k' = k then Some v else Map_get m k)"

fun Map_has :: "('k, 'v) js_map \<Rightarrow> 'k \<Rightarrow> bool" where
  "Map_has [] k = False"
| "Map_has ((k', v) # m) k = (k' = k \<or> Map_has m k)"

fun Map_set :: "('k, 'v) js_map \<Rightarrow> 'k \<Rightarrow> 'v \<Rightarrow> ('k, 'v) js_map" where
  "Map_set [] k v = [(k, v)]"
| "Map_set ((k', v') # m) k v = (if k' = k then (k, v) # m else (k', v') # Map_set m k v)"

text \<open>\<open>delete\<close> returns whether the key was present; the two halves are given apart.\<close>

definition Map_delete :: "('k, 'v) js_map \<Rightarrow> 'k \<Rightarrow> ('k, 'v) js_map" where
  "Map_delete m k = filter (\<lambda>kv. fst kv \<noteq> k) m"

definition Map_keys :: "('k, 'v) js_map \<Rightarrow> 'k list" where
  "Map_keys m = map fst m"

section \<open>The basic hook manager (createHookManager)\<close>

type_synonym HookMap = "(string, HookFunction) js_map"

text \<open>
  Every operation takes the map and returns what the call returns or throws together
  with the map afterwards.
\<close>

definition basic_register ::
  "HookMap \<Rightarrow> string \<Rightarrow> HookFunction \<Rightarrow> (js_error + unit) \<times> HookMap" where
  "basic_register hooks name fn =
     (if Map_has hooks name then (Inl (new_DuplicateHookError name), hooks)
      else (Inr (), Map_set hooks name fn))"

definition basic_unregister :: "HookMap \<Rightarrow> string \<Rightarrow> bool \<times> HookMap" where
  "basic_unregister hooks name = (Map_has hooks name, Map_delete hooks name)"

definition basic_has :: "HookMap \<Rightarrow> string \<Rightarrow> bool" where
  "basic_has hooks name = Map_has hooks name"

definition basic_list :: "HookMap \<Rightarrow> string list" where
  "basic_list hooks = Map_keys hooks"

definition basic_on :: "'d behaviour \<Rightarrow> HookMap \<Rightarrow> string \<Rightarrow> 'd \<Rightarrow> nat \<Rightarrow> on_result" where
  "basic_on beh hooks name data t =
     (case Map_get hooks name of
        None \<Rightarrow> \<lparr>invoked = [], settled = Rejected t (new_HookNotFoundError name)\<rparr>
      | Some hook \<Rightarrow>
          \<lparr>invoked = [(hook, t)],
           settled = try_catch name (call_and_await beh hook data t)\<rparr>)"


section \<open>The priority hook manager (createPriorityHookManager)\<close>

record hook_entry =
  hook_priority :: int
  hook_fn :: HookFunction

type_synonym PriorityMap = "(string, hook_entry list) js_map"




definition priority_unregister ::
  "PriorityMap \<Rightarrow> string \<Rightarrow> HookFunction option \<Rightarrow> bool \<times> PriorityMap" where
  "priority_unregister hooks name fn_arg =
     (if \<not> Map_has hooks name then (False, hooks)
      else
        (case fn_arg of
           Some fn \<Rightarrow>
             (let hooksList = the (Map_get hooks name);
                  initialLength = length hooksList;
                  newHooks = filter (\<lambda>hook. hook_fn hook \<noteq> fn) hooksList;
                  hooks1 = Map_set hooks name newHooks;
                  hooks2 = (if length newHooks = 0 then Map_delete hooks1 name else hooks1)
              in (initialLength \<noteq> length newHooks, hooks2))
         | None \<Rightarrow> (Map_has hooks name, Map_delete hooks name)))"

definition priority_has :: "PriorityMap \<Rightarrow> string \<Rightarrow> bool" where
  "priority_has hooks name = (Map_has hooks name \<and> length (the (Map_get hooks name)) > 0)"


definition priority_on ::
  "'d behaviour \<Rightarrow> PriorityMap \<Rightarrow> string \<Rightarrow> 'd \<Rightarrow> nat \<Rightarrow> on_result" where
  "priority_on beh hooks name data t =
     (if \<not> Map_has hooks name \<or> length (the (Map_get hooks name)) = 0
      then \<lparr>invoked = [], settled = Rejected t (new_HookNotFoundError name)\<rparr>
      else
        (let hooksList = the (Map_get hooks name)
         in case for_await beh (map hook_fn hooksList) data t of
              (calls, a) \<Rightarrow> \<lparr>invoked = calls, settled = try_catch name a\<rparr>))"

section \<open>The parallel hook manager (createParallelHookManager)\<close>

type_synonym ParallelMap = "(string, HookFunction list) js_map"


definition parallel_unregister ::
  "ParallelMap \<Rightarrow> string \<Rightarrow> HookFunction option \<Rightarrow> bool \<times> ParallelMap" where
  "parallel_unregister hooks name fn_arg =
     (if \<not> Map_has hooks name then (False, hooks)
      else
        (case fn_arg of
           Some fn \<Rightarrow>
             (let hooksList = the (Map_get hooks name);
                  initialLength = length hooksList;
                  newHooks = filter (\<lambda>hook. hook \<noteq> fn) hooksList;
                  hooks1 = Map_set hooks name newHooks;
                  hooks2 = (if length newHooks = 0 then Map_delete hooks1 name else hooks1)
              in (initialLength \<noteq> length newHooks, hooks2))
         | None \<Rightarrow> (Map_has hooks name, Map_delete hooks name)))"

definition parallel_has :: "ParallelMap \<Rightarrow> string \<Rightarrow> bool" where
  "parallel_has hooks name = (Map_has hooks name \<and> length (the (Map_get hooks name)) > 0)"


text \<open>\<open>on(name, data, parallel = false)\<close>; the caller's default is resolved by the caller.\<close>

definition parallel_on ::
  "'d behaviour \<Rightarrow> ParallelMap \<Rightarrow> string \<Rightarrow> 'd \<Rightarrow> bool \<Rightarrow> nat \<Rightarrow> on_result" where
  "parallel_on beh hooks name data parallel_arg t =
     (if \<not> Map_has hooks name \<or> length (the (Map_get hooks name)) = 0
      then \<lparr>invoked = [], settled = Rejected t (new_HookNotFoundError name)\<rparr>
      else
        (let hooksList = the (Map_get hooks name)
         in if parallel_arg
            then
              (case Array_map_call beh hooksList data t of
                 (calls, Inl v) \<Rightarrow> \<lparr>invoked = calls, settled = try_catch name (Raised t v)\<rparr>
               | (calls, Inr ps) \<Rightarrow>
                   \<lparr>invoked = calls, settled = try_catch name (await (Promise_all t ps))\<rparr>)
            else
              (case for_await beh hooksList data t of
                 (calls, a) \<Rightarrow> \<lparr>invoked = calls, settled = try_catch name a\<rparr>)))"

section \<open>The scoped hook manager (createScopedHookManager)\<close>

text \<open>
  The scoped manager owns one basic manager and hands every name over as
  \<open>`${prefix}:${name}`\<close>.
\<close>

definition scoped_name :: "string \<Rightarrow> string \<Rightarrow> string" where
  "scoped_name pfx name = pfx @ '':'' @ name"

definition startsWith :: "string \<Rightarrow> string \<Rightarrow> bool" where
  "startsWith s p = (take (length p) s = p)"

definition substring :: "string \<Rightarrow> nat \<Rightarrow> string" where
  "substring s n = drop n s"

definition scoped_register ::
  "string \<Rightarrow> HookMap \<Rightarrow> string \<Rightarrow> HookFunction \<Rightarrow> (js_error + unit) \<times> HookMap" where
  "scoped_register pfx manager name fn = basic_register manager (scoped_name pfx name) fn"

definition scoped_unregister :: "string \<Rightarrow> HookMap \<Rightarrow> string \<Rightarrow> bool \<times> HookMap" where
  "scoped_unregister pfx manager name = basic_unregister manager (scoped_name pfx name)"

definition scoped_has :: "string \<Rightarrow> HookMap \<Rightarrow> string \<Rightarrow> bool" where
  "scoped_has pfx manager name = basic_has manager (scoped_name pfx name)"

definition scoped_list :: "string \<Rightarrow> HookMap \<Rightarrow> string list" where
  "scoped_list pfx manager =
     map (\<lambda>name. substring name (length pfx + 1))
       (filter (\<lambda>name. startsWith name (pfx @ '':'')) (basic_list manager))"

definition scoped_on ::
  "'d behaviour \<Rightarrow> string \<Rightarrow> HookMap \<Rightarrow> string \<Rightarrow> 'd \<Rightarrow> nat \<Rightarrow> on_result" where
  "scoped_on beh pfx manager name data t = basic_on beh manager (scoped_name pfx name) data t"

section \<open>Sequences of calls and properties of callbacks\<close>

text \<open>
  What a callback does with a payload, in the specification's terms: it completes (returns,
  or its promise is fulfilled), or it fails with a value (throws it, or its promise is
  rejected with it).
\<close>

definition completes :: "outcome \<Rightarrow> bool" where
  "completes out = (case out of Returns \<Rightarrow> True | Resolves d \<Rightarrow> True | _ \<Rightarrow> False)"

definition thrown_by :: "outcome \<Rightarrow> js_value option" where
  "thrown_by out = (case out of Throws v \<Rightarrow> Some v | Rejects d v \<Rightarrow> Some v | _ \<Rightarrow> None)"

definition throws_synchronously :: "outcome \<Rightarrow> bool" where
  "throws_synchronously out = (case out of Throws v \<Rightarrow> True | _ \<Rightarrow> False)"

text \<open>The tick at which the promise of a callback called at tick \<open>t\<close> settles, if it does.\<close>

definition settles_at :: "outcome \<Rightarrow> nat \<Rightarrow> nat option" where
  "settles_at out t =
     (case out of
        Returns \<Rightarrow> Some t
      | Throws v \<Rightarrow> Some t
      | Resolves d \<Rightarrow> Some (t + d)
      | Rejects d v \<Rightarrow> Some (t + d)
      | Pending \<Rightarrow> None)"





text \<open>
  Calls that a client can make on a list-based manager (\<open>on\<close> does not touch the map),
  and the map after a sequence of them.
\<close>

datatype call =
    Register string HookFunction "int option"
  | Unregister string "HookFunction option"
  | On string



fun scoped_call :: "string \<Rightarrow> call \<Rightarrow> HookMap \<Rightarrow> HookMap" where
  "scoped_call pfx (Register name fn priority_arg) manager = snd (scoped_register pfx manager name fn)"
| "scoped_call pfx (Unregister name fn_arg) manager = snd (scoped_unregister pfx manager name)"
| "scoped_call pfx (On name) manager = manager"

text \<open>
  The spec's words for its error family: a kind is a specialization of a base kind
  when it is a class of its own below the base.
\<close>

definition specialization_of :: "error_class \<Rightarrow> error_class \<Rightarrow> bool" where
  "specialization_of c base = (c \<noteq> base \<and> base \<in> set (prototype_chain c))"



text \<open>
  A second behaviour table for examples: callback 1 returns a promise that is rejected
  with \<open>new Error("boom")\<close> after 1 tick, callback 2 one that is fulfilled after 5
  ticks, callback 3 throws \<open>new Error("boom")\<close> before it returns, and any other
  callback returns.
\<close>

definition beh_mixed :: "unit behaviour" where
  "beh_mixed h d =
     (if h = 1 then Rejects 1 (ErrorValue (new_Error ''boom''))
      else if h = 2 then Resolves 5
      else if h = 3 then Throws (ErrorValue (new_Error ''boom''))
      else Returns)"

text \<open>
  A third behaviour table for examples: callback 1 returns a promise that is rejected
  with the string \<open>"oops"\<close> after 1 tick, and any other callback one that is rejected
  with \<open>new Error("boom")\<close> after 2 ticks.
\<close>

definition beh_two_failures :: "unit behaviour" where
  "beh_two_failures h d =
     (if h = 1 then Rejects 1 (OtherValue ''oops'')
      else Rejects 2 (ErrorValue (new_Error ''boom'')))"


text \<open>Every name in the inner manager of a scope starts with the prefix and a colon.\<close>

definition all_prefixed :: "string \<Rightarrow> HookMap \<Rightarrow> bool" where
  "all_prefixed pfx manager = list_all (\<lambda>k. startsWith k (pfx @ '':'')) (Map_keys manager)"

section \<open>Facts about the Map\<close>

lemma Map_has_get: "Map_has m k = (Map_get m k \<noteq> None)"
  by (induction m) auto

lemma Map_has_keys: "Map_has m k = (k \<in> set (Map_keys m))"
  by (induction m) (auto simp: Map_keys_def)

lemma Map_get_set: "Map_get (Map_set m k v) k' = (if k' = k then Some v else Map_get m k')"
  by (induction m) auto

lemma Map_get_delete: "Map_get (Map_delete m k) k' = (if k' = k then None else Map_get m k')"
  by (induction m) (auto simp: Map_delete_def)

lemma Map_keys_set:
  "Map_keys (Map_set m k v) = (if Map_has m k then Map_keys m else Map_keys m @ [k])"
  by (induction m) (auto simp: Map_keys_def)

lemma Map_keys_delete: "Map_keys (Map_delete m k) = filter (\<lambda>k'. k' \<noteq> k) (Map_keys m)"
  by (induction m) (auto simp: Map_keys_def Map_delete_def)

section \<open>The basic hook manager rejects a second registration\<close>

text \<open>
  C2. In the basic hook manager, \<open>register(name, fn)\<close> throws a DuplicateHookError
  whenever \<open>name\<close> already has a callback, and the map is left as it was: the callback
  registered first is still stored under \<open>name\<close>, and it is the one (the only one) that a
  later \<open>on(name)\<close> invokes.
\<close>

theorem basic_register_duplicate_keeps_first:
  assumes "basic_has hooks name"
  shows "fst (basic_register hooks name g) = Inl (new_DuplicateHookError name)
       \<and> class_of (new_DuplicateHookError name) = DuplicateHookError
       \<and> snd (basic_register hooks name g) = hooks
       \<and> (\<exists>f. Map_get hooks name = Some f
            \<and> Map_get (snd (basic_register hooks name g)) name = Some f
            \<and> invoked (basic_on beh (snd (basic_register hooks name g)) name data t) = [(f, t)])"
proof -
  from assms obtain f where f: "Map_get hooks name = Some f"
    by (auto simp: basic_has_def Map_has_get)
  from assms have reg: "basic_register hooks name g = (Inl (new_DuplicateHookError name), hooks)"
    by (simp add: basic_register_def basic_has_def)
  from f have "invoked (basic_on beh hooks name data t) = [(f, t)]"
    by (simp add: basic_on_def)
  with f reg show ?thesis
    by (simp add: new_DuplicateHookError_def)
qed

text \<open>
  The scenario of the test suite: \<open>"test"\<close> is registered with callback 1 and then with
  callback 2; the second call throws and \<open>on("test")\<close> still invokes callback 1.
\<close>

theorem basic_register_duplicate_keeps_first_witness:
  "basic_has (snd (basic_register [] ''test'' 1)) ''test''
   \<and> fst (basic_register (snd (basic_register [] ''test'' 1)) ''test'' 2)
       = Inl (new_DuplicateHookError ''test'')
   \<and> snd (basic_register (snd (basic_register [] ''test'' 1)) ''test'' 2) = [(''test'', 1)]
   \<and> invoked (basic_on (\<lambda>h d. Returns)
        (snd (basic_register (snd (basic_register [] ''test'' 1)) ''test'' 2)) ''test'' () 0)
       = [(1, 0)]"
proof -
  have h: "basic_has (snd (basic_register [] ''test'' 1)) ''test''"
    by (simp add: basic_has_def basic_register_def)
  have s: "snd (basic_register [] ''test'' 1) = [(''test'', 1)]"
    by (simp add: basic_register_def)
  from basic_register_duplicate_keeps_first [OF h, of 2 "\<lambda>h d. Returns" "()" 0] h s
  show ?thesis
    by auto
qed

section \<open>The priority hook manager: order of the stored list\<close>











lemma call_and_await_thrown:
  "thrown_by (beh h d) = Some v \<Longrightarrow> \<exists>t'. call_and_await beh h d t = Raised t' v \<and> t \<le> t'"
  by (auto simp: thrown_by_def call_and_await_def Promise_resolve_call_def await_def
           split: outcome.splits)

lemma call_and_await_Resumes:
  "call_and_await beh h d t = Resumes t' \<Longrightarrow> completes (beh h d) \<and> t \<le> t'"
  by (auto simp: completes_def call_and_await_def Promise_resolve_call_def await_def
           split: outcome.splits)

lemma call_and_await_Raised:
  "call_and_await beh h d t = Raised t' v \<Longrightarrow> thrown_by (beh h d) = Some v \<and> t \<le> t'"
  by (auto simp: thrown_by_def call_and_await_def Promise_resolve_call_def await_def
           split: outcome.splits)






lemma priority_has_iff:
  "priority_has hooks name = (\<exists>l. Map_get hooks name = Some l \<and> l \<noteq> [])"
  by (auto simp: priority_has_def Map_has_get)

lemma priority_on_registered:
  "Map_get hooks name = Some l \<Longrightarrow> l \<noteq> [] \<Longrightarrow>
     priority_on beh hooks name d t =
       \<lparr>invoked = fst (for_await beh (map hook_fn l) d t),
        settled = try_catch name (snd (for_await beh (map hook_fn l) d t))\<rparr>"
  by (simp add: priority_on_def Map_has_get split: prod.splits)

lemma priority_on_not_found:
  "\<not> priority_has hooks name \<Longrightarrow>
     priority_on beh hooks name d t =
       \<lparr>invoked = [], settled = Rejected t (new_HookNotFoundError name)\<rparr>"
  by (auto simp: priority_on_def priority_has_def)



section \<open>Sequential execution is fail-fast\<close>


lemma call_and_await_Raised_settles:
  "call_and_await beh h d t = Raised t' v \<Longrightarrow> settles_at (beh h d) t = Some t'"
  by (auto simp: settles_at_def call_and_await_def Promise_resolve_call_def await_def
           split: outcome.splits)

lemma for_await_Raised:
  "snd (for_await beh hs d t) = Raised t' v \<Longrightarrow>
     fst (for_await beh hs d t) \<noteq> []
     \<and> call_and_await beh (fst (last (fst (for_await beh hs d t)))) d
         (snd (last (fst (for_await beh hs d t)))) = Raised t' v"
proof (induction hs arbitrary: t)
  case Nil
  then show ?case by simp
next
  case (Cons h hs)
  show ?case
  proof (cases "call_and_await beh h d t")
    case (Resumes t1)
    obtain calls a where fa: "for_await beh hs d t1 = (calls, a)" by (cases "for_await beh hs d t1")
    with Cons.prems Resumes have "snd (for_await beh hs d t1) = Raised t' v" by simp
    from Cons.IH [OF this] show ?thesis
      by (simp add: Resumes fa)
  next
    case (Raised t1 v1)
    with Cons.prems show ?thesis by simp
  next
    case Suspended
    with Cons.prems show ?thesis by simp
  qed
qed

lemma completes_not_thrown: "completes out \<Longrightarrow> thrown_by out = None"
  by (auto simp: completes_def thrown_by_def split: outcome.splits)

lemma for_await_invoked_thrown:
  "(h, t0) \<in> set (fst (for_await beh hs d t)) \<Longrightarrow> thrown_by (beh h d) = Some v \<Longrightarrow>
     \<exists>t'. snd (for_await beh hs d t) = Raised t' v"
proof (induction hs arbitrary: t)
  case Nil
  then show ?case by simp
next
  case (Cons g hs)
  show ?case
  proof (cases "call_and_await beh g d t")
    case (Resumes t1)
    obtain calls a where fa: "for_await beh hs d t1 = (calls, a)" by (cases "for_await beh hs d t1")
    from Resumes have "completes (beh g d)" by (simp add: call_and_await_Resumes)
    then have "thrown_by (beh g d) = None" by (rule completes_not_thrown)
    with Cons.prems(2) have "g \<noteq> h" by auto
    with Cons.prems(1) Resumes fa have "(h, t0) \<in> set (fst (for_await beh hs d t1))" by auto
    from Cons.IH [OF this Cons.prems(2)] show ?thesis
      by (simp add: Resumes fa)
  next
    case (Raised t1 v1)
    with Cons.prems(1) have "g = h" by simp
    with Raised Cons.prems(2) have "v1 = v"
      using call_and_await_Raised [of beh h d t t1 v1] by simp
    with Raised show ?thesis by simp
  next
    case Suspended
    with Cons.prems(1) have "g = h" by simp
    with Suspended Cons.prems(2) show ?thesis
      using call_and_await_thrown [where beh=beh and h=h and d=d and t=t and v=v] by auto
  qed
qed

lemma parallel_has_iff:
  "parallel_has hooks name = (\<exists>l. Map_get hooks name = Some l \<and> l \<noteq> [])"
  by (auto simp: parallel_has_def Map_has_get)

lemma parallel_on_sequential:
  "Map_get hooks name = Some l \<Longrightarrow> l \<noteq> [] \<Longrightarrow>
     parallel_on beh hooks name d False t =
       \<lparr>invoked = fst (for_await beh l d t),
        settled = try_catch name (snd (for_await beh l d t))\<rparr>"
  by (simp add: parallel_on_def Map_has_get split: prod.splits)

lemma parallel_on_not_found:
  "\<not> parallel_has hooks name \<Longrightarrow>
     parallel_on beh hooks name d par t =
       \<lparr>invoked = [], settled = Rejected t (new_HookNotFoundError name)\<rparr>"
  by (auto simp: parallel_on_def parallel_has_def)






section \<open>Concurrent execution in the parallel hook manager\<close>

lemma Promise_resolve_call_Inl:
  "Promise_resolve_call beh h d t = Inl v \<longleftrightarrow> beh h d = Throws v"
  by (auto simp: Promise_resolve_call_def split: outcome.splits)

lemma Promise_resolve_call_Rejected:
  "Promise_resolve_call beh h d t = Inr (Rejected t' v) \<Longrightarrow>
     thrown_by (beh h d) = Some v \<and> settles_at (beh h d) t = Some t'"
  by (auto simp: Promise_resolve_call_def thrown_by_def settles_at_def split: outcome.splits)

lemma Promise_resolve_call_Fulfilled:
  "Promise_resolve_call beh h d t = Inr (Fulfilled t') \<Longrightarrow>
     completes (beh h d) \<and> settles_at (beh h d) t = Some t'"
  by (auto simp: Promise_resolve_call_def completes_def settles_at_def split: outcome.splits)

lemma Promise_resolve_call_thrown:
  "Promise_resolve_call beh h d t = Inr p \<Longrightarrow> thrown_by (beh h d) = Some v \<Longrightarrow>
     \<exists>t'. p = Rejected t' v \<and> settles_at (beh h d) t = Some t'"
  by (auto simp: Promise_resolve_call_def thrown_by_def settles_at_def split: outcome.splits)

lemma Promise_resolve_call_completes:
  "Promise_resolve_call beh h d t = Inr p \<Longrightarrow> completes (beh h d) \<Longrightarrow>
     \<exists>t'. p = Fulfilled t' \<and> settles_at (beh h d) t = Some t'"
  by (auto simp: Promise_resolve_call_def completes_def settles_at_def split: outcome.splits)

lemma throws_synchronously_iff: "throws_synchronously out = (\<exists>v. out = Throws v)"
  by (auto simp: throws_synchronously_def split: outcome.splits)

lemma Array_map_call_Inr:
  "Array_map_call beh hs d t = (calls, Inr ps) \<Longrightarrow>
     calls = map (\<lambda>h. (h, t)) hs
     \<and> list_all2 (\<lambda>h p. Promise_resolve_call beh h d t = Inr p) hs ps"
proof (induction hs arbitrary: calls ps)
  case Nil
  then show ?case by simp
next
  case (Cons h hs)
  from Cons.prems obtain p where p: "Promise_resolve_call beh h d t = Inr p"
    by (cases "Promise_resolve_call beh h d t") auto
  obtain calls' r where rest: "Array_map_call beh hs d t = (calls', r)"
    by (cases "Array_map_call beh hs d t")
  from Cons.prems p rest obtain ps' where r: "r = Inr ps'" and ps: "ps = p # ps'"
    and calls: "calls = (h, t) # calls'"
    by (cases r) auto
  from Cons.IH [of calls' ps'] rest r p ps calls show ?case by simp
qed

lemma Array_map_call_Inl:
  "Array_map_call beh hs d t = (calls, Inl v) \<Longrightarrow>
     \<exists>pre h post. hs = pre @ h # post \<and> calls = map (\<lambda>h. (h, t)) (pre @ [h])
       \<and> beh h d = Throws v \<and> (\<forall>g \<in> set pre. \<not> throws_synchronously (beh g d))"
proof (induction hs arbitrary: calls)
  case Nil
  then show ?case by simp
next
  case (Cons h hs)
  show ?case
  proof (cases "Promise_resolve_call beh h d t")
    case (Inl v')
    with Cons.prems have "calls = [(h, t)]" and "v' = v" by auto
    with Inl have "h # hs = [] @ h # hs \<and> calls = map (\<lambda>h. (h, t)) ([] @ [h])
       \<and> beh h d = Throws v \<and> (\<forall>g \<in> set []. \<not> throws_synchronously (beh g d))"
      by (simp add: Promise_resolve_call_Inl)
    then show ?thesis by blast
  next
    case (Inr p)
    obtain calls' r where rest: "Array_map_call beh hs d t = (calls', r)"
      by (cases "Array_map_call beh hs d t")
    from Cons.prems Inr rest have r: "r = Inl v" and calls: "calls = (h, t) # calls'"
      by (cases r; auto)+
    from Cons.IH [of calls'] rest r obtain pre g post where
      hs: "hs = pre @ g # post" and c': "calls' = map (\<lambda>h. (h, t)) (pre @ [g])"
      and g: "beh g d = Throws v" and pre: "\<forall>g \<in> set pre. \<not> throws_synchronously (beh g d)"
      by blast
    from Inr have "\<not> throws_synchronously (beh h d)"
      by (auto simp: throws_synchronously_iff Promise_resolve_call_def)
    with hs c' g pre calls have "h # hs = (h # pre) @ g # post
       \<and> calls = map (\<lambda>h. (h, t)) ((h # pre) @ [g])
       \<and> beh g d = Throws v \<and> (\<forall>g \<in> set (h # pre). \<not> throws_synchronously (beh g d))"
      by simp
    then show ?thesis by blast
  qed
qed

lemma first_rejection_None:
  "first_rejection ps = None \<longleftrightarrow> (\<forall>t v. Rejected t v \<notin> set ps)"
proof (induction ps)
  case Nil
  show ?case by simp
next
  case (Cons p ps)
  then show ?case
    by (cases p) (auto split: option.splits)
qed

lemma first_rejection_Some:
  "first_rejection ps = Some (t', v) \<Longrightarrow>
     Rejected t' v \<in> set ps \<and> (\<forall>t'' v''. Rejected t'' v'' \<in> set ps \<longrightarrow> t' \<le> t'')"
proof (induction ps arbitrary: t' v)
  case Nil
  then show ?case by simp
next
  case (Cons p ps)
  show ?case
  proof (cases p)
    case (Rejected t1 v1)
    show ?thesis
    proof (cases "first_rejection ps")
      case None
      with Cons.prems Rejected have "t' = t1" "v = v1" by auto
      with None Rejected show ?thesis
        by (auto simp: first_rejection_None)
    next
      case (Some tv)
      obtain t2 v2 where tv: "tv = (t2, v2)" by (cases tv)
      from Cons.IH [of t2 v2] Some tv have ih: "Rejected t2 v2 \<in> set ps"
        "\<forall>t'' v''. Rejected t'' v'' \<in> set ps \<longrightarrow> t2 \<le> t''" by auto
      show ?thesis
      proof (cases "t2 < t1")
        case True
        with Cons.prems Rejected Some tv have "t' = t2" "v = v2" by auto
        with ih True Rejected show ?thesis by auto
      next
        case False
        with Cons.prems Rejected Some tv have "t' = t1" "v = v1" by auto
        with ih False Rejected show ?thesis by fastforce
      qed
    qed
  next
    case (Fulfilled t1)
    with Cons.prems have "first_rejection ps = Some (t', v)" by simp
    from Cons.IH [OF this] Fulfilled show ?thesis by auto
  next
    case Unsettled
    with Cons.prems have "first_rejection ps = Some (t', v)" by simp
    from Cons.IH [OF this] Unsettled show ?thesis by auto
  qed
qed

lemma last_fulfilment_ge: "Fulfilled t' \<in> set ps \<Longrightarrow> t' \<le> last_fulfilment t ps"
proof (induction ps)
  case Nil
  then show ?case by simp
next
  case (Cons p ps)
  then show ?case by (cases p) auto
qed

lemma parallel_on_concurrent_eq:
  "Map_get hooks name = Some l \<Longrightarrow> l \<noteq> [] \<Longrightarrow>
     parallel_on beh hooks name d True t =
       (case Array_map_call beh l d t of
          (calls, Inl v) \<Rightarrow> \<lparr>invoked = calls, settled = Rejected t (rethrow name v)\<rparr>
        | (calls, Inr ps) \<Rightarrow>
            \<lparr>invoked = calls, settled = try_catch name (await (Promise_all t ps))\<rparr>)"
  by (simp add: parallel_on_def Map_has_get try_catch_def split: prod.splits sum.splits)


lemma list_all2_right: "list_all2 P xs ys \<Longrightarrow> y \<in> set ys \<Longrightarrow> \<exists>x \<in> set xs. P x y"
  by (induction rule: list_all2_induct) auto

lemma list_all2_left: "list_all2 P xs ys \<Longrightarrow> x \<in> set xs \<Longrightarrow> \<exists>y \<in> set ys. P x y"
  by (induction rule: list_all2_induct) auto

lemma Array_map_call_no_throw:
  assumes "\<forall>h \<in> set hs. \<not> throws_synchronously (beh h d)"
  shows "\<exists>ps. Array_map_call beh hs d t = (map (\<lambda>h. (h, t)) hs, Inr ps)
           \<and> list_all2 (\<lambda>h p. Promise_resolve_call beh h d t = Inr p) hs ps"
proof -
  obtain calls r where am: "Array_map_call beh hs d t = (calls, r)"
    by (cases "Array_map_call beh hs d t")
  show ?thesis
  proof (cases r)
    case (Inl v)
    from Array_map_call_Inl [OF am [unfolded Inl]] assms show ?thesis
      by (auto simp: throws_synchronously_iff)
  next
    case (Inr ps)
    from Array_map_call_Inr [OF am [unfolded Inr]] am Inr show ?thesis by simp
  qed
qed

lemma settled_Promise_all_Rejected:
  "try_catch name (await (Promise_all t ps)) = Rejected t' e \<longleftrightarrow>
     (\<exists>v. first_rejection ps = Some (t', v) \<and> e = rethrow name v)"
  by (auto simp: try_catch_def await_def Promise_all_def split: option.splits)

lemma parallel_on_rejected_iff:
  assumes "Map_get hooks name = Some l" and "l \<noteq> []"
  shows "(\<exists>t' e. settled (parallel_on beh hooks name d True t) = Rejected t' e)
           \<longleftrightarrow> (\<exists>h \<in> set l. thrown_by (beh h d) \<noteq> None)"
proof -
  obtain calls r where am: "Array_map_call beh l d t = (calls, r)"
    by (cases "Array_map_call beh l d t")
  show ?thesis
  proof (cases r)
    case (Inl v)
    from Array_map_call_Inl [OF am [unfolded Inl]] obtain h where "h \<in> set l" "beh h d = Throws v"
      by fastforce
    then have "h \<in> set l \<and> thrown_by (beh h d) \<noteq> None"
      by (simp add: thrown_by_def)
    then have "\<exists>h \<in> set l. thrown_by (beh h d) \<noteq> None" by blast
    moreover have "settled (parallel_on beh hooks name d True t) = Rejected t (rethrow name v)"
      by (simp add: parallel_on_concurrent_eq [OF assms] am Inl)
    ultimately show ?thesis by simp
  next
    case (Inr ps)
    from Array_map_call_Inr [OF am [unfolded Inr]]
    have rel: "list_all2 (\<lambda>h p. Promise_resolve_call beh h d t = Inr p) l ps" by simp
    have on: "settled (parallel_on beh hooks name d True t)
        = try_catch name (await (Promise_all t ps))"
      by (simp add: parallel_on_concurrent_eq [OF assms] am Inr)
    show ?thesis
    proof
      assume "\<exists>t' e. settled (parallel_on beh hooks name d True t) = Rejected t' e"
      then obtain t' v where "first_rejection ps = Some (t', v)"
        unfolding on settled_Promise_all_Rejected by blast
      then have "Rejected t' v \<in> set ps" by (simp add: first_rejection_Some)
      from list_all2_right [OF rel this] obtain h where "h \<in> set l"
        and "Promise_resolve_call beh h d t = Inr (Rejected t' v)" by blast
      then show "\<exists>h \<in> set l. thrown_by (beh h d) \<noteq> None"
        by (auto dest: Promise_resolve_call_Rejected)
    next
      assume "\<exists>h \<in> set l. thrown_by (beh h d) \<noteq> None"
      then obtain h v where h: "h \<in> set l" and v: "thrown_by (beh h d) = Some v" by auto
      from list_all2_left [OF rel h] obtain p where p: "p \<in> set ps"
        and "Promise_resolve_call beh h d t = Inr p" by blast
      from Promise_resolve_call_thrown [OF this(2) v] p obtain t1 where "Rejected t1 v \<in> set ps"
        by auto
      then have "first_rejection ps \<noteq> None" by (auto simp: first_rejection_None)
      then obtain t' v' where "first_rejection ps = Some (t', v')" by auto
      then show "\<exists>t' e. settled (parallel_on beh hooks name d True t) = Rejected t' e"
        unfolding on settled_Promise_all_Rejected by blast
    qed
  qed
qed

lemma parallel_on_all_started:
  assumes "Map_get hooks name = Some l" and "l \<noteq> []"
      and "\<forall>h \<in> set l. \<not> throws_synchronously (beh h d)"
  shows "invoked (parallel_on beh hooks name d True t) = map (\<lambda>h. (h, t)) l"
proof -
  from Array_map_call_no_throw [where beh=beh and d=d and t=t, OF assms(3)] obtain ps where
    "Array_map_call beh l d t = (map (\<lambda>h. (h, t)) l, Inr ps)" by blast
  then show ?thesis
    by (simp add: parallel_on_concurrent_eq [OF assms(1,2)])
qed

lemma parallel_on_all_complete:
  assumes "Map_get hooks name = Some l" and "l \<noteq> []"
      and "\<forall>h \<in> set l. completes (beh h d)"
  shows "\<exists>t'. settled (parallel_on beh hooks name d True t) = Fulfilled t'
           \<and> (\<forall>h \<in> set l. \<exists>s. settles_at (beh h d) t = Some s \<and> s \<le> t')"
proof -
  from assms(3) have "\<forall>h \<in> set l. \<not> throws_synchronously (beh h d)"
    by (auto simp: throws_synchronously_iff completes_def)
  from Array_map_call_no_throw [where beh=beh and d=d and t=t, OF this] obtain ps where
    am: "Array_map_call beh l d t = (map (\<lambda>h. (h, t)) l, Inr ps)"
    and rel: "list_all2 (\<lambda>h p. Promise_resolve_call beh h d t = Inr p) l ps" by blast
  have ful: "\<exists>s. p = Fulfilled s" if "p \<in> set ps" for p
  proof -
    from list_all2_right [OF rel that] obtain h where "h \<in> set l"
      and "Promise_resolve_call beh h d t = Inr p" by blast
    with assms(3) show ?thesis
      using Promise_resolve_call_completes [of beh h d t p] by auto
  qed
  then have "first_rejection ps = None" and "Unsettled \<notin> set ps"
    by (auto simp: first_rejection_None)
  then have on: "settled (parallel_on beh hooks name d True t) = Fulfilled (last_fulfilment t ps)"
    by (simp add: parallel_on_concurrent_eq [OF assms(1,2)] am Promise_all_def try_catch_def
          await_def)
  have "\<exists>s. settles_at (beh h d) t = Some s \<and> s \<le> last_fulfilment t ps" if "h \<in> set l" for h
  proof -
    from list_all2_left [OF rel that] obtain p where p: "p \<in> set ps"
      and prc: "Promise_resolve_call beh h d t = Inr p" by blast
    from that assms(3) have "completes (beh h d)" by simp
    from Promise_resolve_call_completes [OF prc this] obtain s where
      "p = Fulfilled s" "settles_at (beh h d) t = Some s" by blast
    with p show ?thesis by (auto intro: last_fulfilment_ge)
  qed
  with on show ?thesis by blast
qed

lemma parallel_on_first_rejection:
  assumes "Map_get hooks name = Some l" and "l \<noteq> []"
      and "\<forall>h \<in> set l. \<not> throws_synchronously (beh h d)"
      and "settled (parallel_on beh hooks name d True t) = Rejected t' e"
  shows "(\<exists>h \<in> set l. \<exists>v. thrown_by (beh h d) = Some v \<and> settles_at (beh h d) t = Some t'
             \<and> e = rethrow name v)
       \<and> (\<forall>h \<in> set l. thrown_by (beh h d) \<noteq> None \<longrightarrow>
             (\<exists>s. settles_at (beh h d) t = Some s \<and> t' \<le> s))"
proof -
  from Array_map_call_no_throw [where beh=beh and d=d and t=t, OF assms(3)] obtain ps where
    am: "Array_map_call beh l d t = (map (\<lambda>h. (h, t)) l, Inr ps)"
    and rel: "list_all2 (\<lambda>h p. Promise_resolve_call beh h d t = Inr p) l ps" by blast
  have "settled (parallel_on beh hooks name d True t) = try_catch name (await (Promise_all t ps))"
    by (simp add: parallel_on_concurrent_eq [OF assms(1,2)] am)
  with assms(4) have "try_catch name (await (Promise_all t ps)) = Rejected t' e" by simp
  then obtain v where fr: "first_rejection ps = Some (t', v)" and e: "e = rethrow name v"
    unfolding settled_Promise_all_Rejected by blast
  from first_rejection_Some [OF fr] have mem: "Rejected t' v \<in> set ps"
    and least: "\<forall>t'' v''. Rejected t'' v'' \<in> set ps \<longrightarrow> t' \<le> t''" by auto
  from list_all2_right [OF rel mem] obtain h where h: "h \<in> set l"
    and "Promise_resolve_call beh h d t = Inr (Rejected t' v)" by blast
  from Promise_resolve_call_Rejected [OF this(2)] h e
  have first: "\<exists>h \<in> set l. \<exists>v. thrown_by (beh h d) = Some v \<and> settles_at (beh h d) t = Some t'
             \<and> e = rethrow name v" by blast
  have "\<exists>s. settles_at (beh g d) t = Some s \<and> t' \<le> s"
    if "g \<in> set l" and "thrown_by (beh g d) \<noteq> None" for g
  proof -
    from that(2) obtain w where w: "thrown_by (beh g d) = Some w" by auto
    from list_all2_left [OF rel that(1)] obtain p where p: "p \<in> set ps"
      and prc: "Promise_resolve_call beh g d t = Inr p" by blast
    from Promise_resolve_call_thrown [OF prc w] obtain s where
      "p = Rejected s w" "settles_at (beh g d) t = Some s" by blast
    with p least show ?thesis by auto
  qed
  with first show ?thesis by blast
qed



text \<open>
  C8, as stated, fails on the code. With callbacks 1 and 2 under \<open>"x"\<close>, the promise of
  \<open>on("x", data, true)\<close> is rejected at tick 1, when the promise of callback 1 is,
  while callback 2 finishes at tick 5: \<open>Promise.all\<close> does not wait for all of them.
  With callbacks 3 and 2, callback 3 throws inside \<open>map\<close> and callback 2 is never
  started.
\<close>

theorem parallel_on_waits_for_all_counterexample:
  "settled (parallel_on beh_mixed [(''x'', [1, 2])] ''x'' () True 0)
     = Rejected 1 (new_HookError ''Error in hook \"x\": boom'')
   \<and> settles_at (beh_mixed 2 ()) 0 = Some 5
   \<and> invoked (parallel_on beh_mixed [(''x'', [3, 2])] ''x'' () True 0) = [(3, 0)]"
  by (simp add: parallel_on_def beh_mixed_def Promise_resolve_call_def Promise_all_def
        await_def try_catch_def rethrow_def instanceof_def new_Error_def settles_at_def)

text \<open>
  C8, amended. \<open>on(name, data, true)\<close> of the parallel hook manager is rejected with a
  HookNotFoundError when \<open>name\<close> has no non-empty list. Otherwise its promise is
  rejected if and only if at least one callback of the list throws or rejects. When no
  callback throws synchronously, every callback of the list is called at the tick of the
  call of \<open>on\<close>, before anything is awaited; if all of them complete, the promise of
  \<open>on\<close> is fulfilled and not before the last of them has finished; if it is rejected,
  that happens at the tick of the earliest rejection among the callbacks, with the error
  wrapped around that rejection's value, whether or not the other callbacks have
  finished. (What is started after a callback that throws synchronously is left open.)
\<close>

theorem parallel_on_concurrent:
  "(\<not> parallel_has hooks name \<longrightarrow>
      parallel_on beh hooks name data True t
        = \<lparr>invoked = [], settled = Rejected t (new_HookNotFoundError name)\<rparr>)
   \<and> (\<forall>hooksList. Map_get hooks name = Some hooksList \<and> hooksList \<noteq> [] \<longrightarrow>
        ((\<exists>t' e. settled (parallel_on beh hooks name data True t) = Rejected t' e)
           \<longleftrightarrow> (\<exists>h \<in> set hooksList. thrown_by (beh h data) \<noteq> None))
      \<and> ((\<forall>h \<in> set hooksList. \<not> throws_synchronously (beh h data)) \<longrightarrow>
            invoked (parallel_on beh hooks name data True t) = map (\<lambda>h. (h, t)) hooksList
          \<and> ((\<forall>h \<in> set hooksList. completes (beh h data)) \<longrightarrow>
                (\<exists>t'. settled (parallel_on beh hooks name data True t) = Fulfilled t'
                   \<and> (\<forall>h \<in> set hooksList. \<exists>s. settles_at (beh h data) t = Some s \<and> s \<le> t')))
          \<and> (\<forall>t' e. settled (parallel_on beh hooks name data True t) = Rejected t' e \<longrightarrow>
                (\<exists>h \<in> set hooksList. \<exists>v. thrown_by (beh h data) = Some v
                    \<and> settles_at (beh h data) t = Some t' \<and> e = rethrow name v)
              \<and> (\<forall>h \<in> set hooksList. thrown_by (beh h data) \<noteq> None \<longrightarrow>
                    (\<exists>s. settles_at (beh h data) t = Some s \<and> t' \<le> s)))))"
proof (intro conjI allI impI)
  assume "\<not> parallel_has hooks name"
  then show "parallel_on beh hooks name data True t
        = \<lparr>invoked = [], settled = Rejected t (new_HookNotFoundError name)\<rparr>"
    by (rule parallel_on_not_found)
next
  fix hooksList
  assume reg: "Map_get hooks name = Some hooksList \<and> hooksList \<noteq> []"
  then have get: "Map_get hooks name = Some hooksList" and ne: "hooksList \<noteq> []" by simp_all
  show "(\<exists>t' e. settled (parallel_on beh hooks name data True t) = Rejected t' e)
           \<longleftrightarrow> (\<exists>h \<in> set hooksList. thrown_by (beh h data) \<noteq> None)"
    by (rule parallel_on_rejected_iff [OF get ne])
  {
    assume nothrow: "\<forall>h \<in> set hooksList. \<not> throws_synchronously (beh h data)"
    show "invoked (parallel_on beh hooks name data True t) = map (\<lambda>h. (h, t)) hooksList"
      by (rule parallel_on_all_started [where beh=beh and d=data, OF get ne nothrow])
    {
      assume "\<forall>h \<in> set hooksList. completes (beh h data)"
      from parallel_on_all_complete [where beh=beh and d=data, OF get ne this]
      show "\<exists>t'. settled (parallel_on beh hooks name data True t) = Fulfilled t'
                   \<and> (\<forall>h \<in> set hooksList. \<exists>s. settles_at (beh h data) t = Some s \<and> s \<le> t')" .
    }
    {
      fix t' e
      assume rej: "settled (parallel_on beh hooks name data True t) = Rejected t' e"
      from parallel_on_first_rejection [where beh=beh and d=data, OF get ne nothrow rej]
      show "\<exists>h \<in> set hooksList. \<exists>v. thrown_by (beh h data) = Some v
                    \<and> settles_at (beh h data) t = Some t' \<and> e = rethrow name v"
        and "\<forall>h \<in> set hooksList. thrown_by (beh h data) \<noteq> None \<longrightarrow>
                    (\<exists>s. settles_at (beh h data) t = Some s \<and> t' \<le> s)"
        by blast+
    }
  }
qed

text \<open>
  Callbacks 1 and 2 under \<open>"x"\<close>, and nothing under \<open>"y"\<close>: both are started at tick
  0 and the promise is rejected; \<open>on("y", data, true)\<close> is rejected at once.
\<close>

theorem parallel_on_concurrent_witness:
  "\<not> parallel_has [(''x'', [1, 2])] ''y''
   \<and> settled (parallel_on beh_mixed [(''x'', [1, 2])] ''y'' () True 0)
       = Rejected 0 (new_HookNotFoundError ''y'')
   \<and> Map_get [(''x'', [1, 2])] ''x'' = Some [1, 2]
   \<and> invoked (parallel_on beh_mixed [(''x'', [1, 2])] ''x'' () True 0) = [(1, 0), (2, 0)]
   \<and> (\<exists>t' e. settled (parallel_on beh_mixed [(''x'', [1, 2])] ''x'' () True 0) = Rejected t' e)"
proof -
  let ?hooks = "[(''x'', [1, 2::nat])]"
  have nh: "\<not> parallel_has ?hooks ''y''"
    by (simp add: parallel_has_def)
  have get: "Map_get ?hooks ''x'' = Some [1, 2] \<and> [1, 2::nat] \<noteq> []"
    by simp
  have nothrow: "\<forall>h \<in> set [1, 2::nat]. \<not> throws_synchronously (beh_mixed h ())"
    by (simp add: beh_mixed_def throws_synchronously_def)
  have fails: "\<exists>h \<in> set [1, 2::nat]. thrown_by (beh_mixed h ()) \<noteq> None"
    by (simp add: beh_mixed_def thrown_by_def)
  note thm_y = parallel_on_concurrent [where hooks="?hooks" and name="''y''" and beh=beh_mixed
      and data="()" and t=0]
  note thm_x = parallel_on_concurrent [where hooks="?hooks" and name="''x''" and beh=beh_mixed
      and data="()" and t=0]
  from thm_y nh have "parallel_on beh_mixed ?hooks ''y'' () True 0
        = \<lparr>invoked = [], settled = Rejected 0 (new_HookNotFoundError ''y'')\<rparr>"
    by blast
  then have y: "settled (parallel_on beh_mixed ?hooks ''y'' () True 0)
       = Rejected 0 (new_HookNotFoundError ''y'')"
    by simp
  from thm_x get fails have rej:
    "\<exists>t' e. settled (parallel_on beh_mixed ?hooks ''x'' () True 0) = Rejected t' e"
    by blast
  from thm_x get nothrow have
    "invoked (parallel_on beh_mixed ?hooks ''x'' () True 0) = map (\<lambda>h. (h, 0)) [1, 2]"
    by blast
  then have inv: "invoked (parallel_on beh_mixed ?hooks ''x'' () True 0) = [(1, 0), (2, 0)]"
    by simp
  from nh y get inv rej show ?thesis by simp
qed

section \<open>How a failure of a callback is reported\<close>

lemma instanceof_Error: "instanceof e Error"
  by (cases "class_of e") (simp_all add: instanceof_def)

lemma rethrow_ErrorValue:
  "rethrow name (ErrorValue e)
     = new_HookError (''Error in hook \"'' @ name @ ''\": '' @ error_message e)"
  by (simp add: rethrow_def instanceof_Error)

lemma rethrow_OtherValue:
  "rethrow name (OtherValue x) = new_HookError (''Unknown error in hook \"'' @ name @ ''\"'')"
  by (simp add: rethrow_def)

lemma class_of_rethrow: "class_of (rethrow name v) = HookError"
  by (cases v) (simp_all add: rethrow_def new_HookError_def)

lemma rethrow_message_has_name: "sublist name (error_message (rethrow name v))"
proof (cases v)
  case (ErrorValue e)
  have "sublist name (''Error in hook \"'' @ name @ (''\": '' @ error_message e))"
    by (rule sublist_appendI)
  then show ?thesis by (simp add: ErrorValue rethrow_ErrorValue new_HookError_def)
next
  case (OtherValue x)
  have "sublist name (''Unknown error in hook \"'' @ name @ ''\"'')"
    by (rule sublist_appendI)
  then show ?thesis by (simp add: OtherValue rethrow_OtherValue new_HookError_def)
qed

lemma rethrow_message_has_message:
  "sublist (error_message e) (error_message (rethrow name (ErrorValue e)))"
proof -
  have "sublist (error_message e) ((''Error in hook \"'' @ name @ ''\": '') @ error_message e)"
    by (rule sublist_append_leftI)
  then show ?thesis by (simp add: rethrow_ErrorValue new_HookError_def)
qed

lemma sublist_scoped_name: "sublist name (scoped_name pfx name)"
proof -
  have "sublist name ((pfx @ '':'') @ name)" by (rule sublist_append_leftI)
  then show ?thesis by (simp add: scoped_name_def)
qed

lemma basic_on_thrown:
  "Map_get hooks name = Some hook \<Longrightarrow> thrown_by (beh hook d) = Some v \<Longrightarrow>
     \<exists>t'. settled (basic_on beh hooks name d t) = Rejected t' (rethrow name v)"
  using call_and_await_thrown [where beh=beh and h=hook and d=d and v=v and t=t]
  by (auto simp: basic_on_def try_catch_def)

lemma priority_on_invoked_thrown:
  assumes "priority_has hooks name"
      and "(h, t0) \<in> set (invoked (priority_on beh hooks name d t))"
      and "thrown_by (beh h d) = Some v"
  shows "\<exists>t'. settled (priority_on beh hooks name d t) = Rejected t' (rethrow name v)"
proof -
  from assms(1) obtain l where get: "Map_get hooks name = Some l" and ne: "l \<noteq> []"
    by (auto simp: priority_has_iff)
  note on = priority_on_registered [OF get ne, of beh d t]
  from assms(2) have "(h, t0) \<in> set (fst (for_await beh (map hook_fn l) d t))"
    by (simp add: on)
  from for_await_invoked_thrown [OF this assms(3)] show ?thesis
    by (auto simp: on try_catch_def)
qed

lemma parallel_on_invoked_thrown:
  assumes "parallel_has hooks name"
      and "(h, t0) \<in> set (invoked (parallel_on beh hooks name d False t))"
      and "thrown_by (beh h d) = Some v"
  shows "\<exists>t'. settled (parallel_on beh hooks name d False t) = Rejected t' (rethrow name v)"
proof -
  from assms(1) obtain l where get: "Map_get hooks name = Some l" and ne: "l \<noteq> []"
    by (auto simp: parallel_has_iff)
  note on = parallel_on_sequential [OF get ne, of beh d t]
  from assms(2) have "(h, t0) \<in> set (fst (for_await beh l d t))"
    by (simp add: on)
  from for_await_invoked_thrown [OF this assms(3)] show ?thesis
    by (auto simp: on try_catch_def)
qed

lemma parallel_on_rejected_wraps:
  assumes "Map_get hooks name = Some l" and "l \<noteq> []"
      and "settled (parallel_on beh hooks name d True t) = Rejected t' e"
  shows "\<exists>h \<in> set l. \<exists>v. thrown_by (beh h d) = Some v \<and> e = rethrow name v"
proof -
  obtain calls r where am: "Array_map_call beh l d t = (calls, r)"
    by (cases "Array_map_call beh l d t")
  show ?thesis
  proof (cases r)
    case (Inl v)
    from Array_map_call_Inl [OF am [unfolded Inl]] obtain h where "h \<in> set l" "beh h d = Throws v"
      by fastforce
    then have h: "h \<in> set l \<and> thrown_by (beh h d) = Some v"
      by (simp add: thrown_by_def)
    from assms(3) have "e = rethrow name v"
      by (simp add: parallel_on_concurrent_eq [OF assms(1,2)] am Inl)
    with h show ?thesis by blast
  next
    case (Inr ps)
    from Array_map_call_Inr [OF am [unfolded Inr]]
    have rel: "list_all2 (\<lambda>h p. Promise_resolve_call beh h d t = Inr p) l ps" by simp
    from assms(3) have "try_catch name (await (Promise_all t ps)) = Rejected t' e"
      by (simp add: parallel_on_concurrent_eq [OF assms(1,2)] am Inr)
    then obtain v where fr: "first_rejection ps = Some (t', v)" and e: "e = rethrow name v"
      unfolding settled_Promise_all_Rejected by blast
    from first_rejection_Some [OF fr] have "Rejected t' v \<in> set ps" by simp
    from list_all2_right [OF rel this] obtain h where h: "h \<in> set l"
      and "Promise_resolve_call beh h d t = Inr (Rejected t' v)" by blast
    from Promise_resolve_call_Rejected [OF this(2)] h e show ?thesis by blast
  qed
qed

lemma parallel_on_invoked_subset:
  assumes "Map_get hooks name = Some l" and "l \<noteq> []"
      and "(h, t0) \<in> set (invoked (parallel_on beh hooks name d True t))"
  shows "h \<in> set l"
proof -
  obtain calls r where am: "Array_map_call beh l d t = (calls, r)"
    by (cases "Array_map_call beh l d t")
  show ?thesis
  proof (cases r)
    case (Inl v)
    from Array_map_call_Inl [OF am [unfolded Inl]] obtain pre g post where
      "l = pre @ g # post" "calls = map (\<lambda>h. (h, t)) (pre @ [g])" by blast
    moreover from assms(3) have "(h, t0) \<in> set calls"
      by (simp add: parallel_on_concurrent_eq [OF assms(1,2)] am Inl)
    ultimately show ?thesis by auto
  next
    case (Inr ps)
    from Array_map_call_Inr [OF am [unfolded Inr]] have "calls = map (\<lambda>h. (h, t)) l" by simp
    moreover from assms(3) have "(h, t0) \<in> set calls"
      by (simp add: parallel_on_concurrent_eq [OF assms(1,2)] am Inr)
    ultimately show ?thesis by auto
  qed
qed

lemma parallel_on_concurrent_invoked_thrown:
  assumes "parallel_has hooks name"
      and "(h, t0) \<in> set (invoked (parallel_on beh hooks name d True t))"
      and "thrown_by (beh h d) = Some v"
  shows "\<exists>t' h' v'. settled (parallel_on beh hooks name d True t) = Rejected t' (rethrow name v')
           \<and> h' \<in> set (the (Map_get hooks name)) \<and> thrown_by (beh h' d) = Some v'"
proof -
  from assms(1) obtain l where get: "Map_get hooks name = Some l" and ne: "l \<noteq> []"
    by (auto simp: parallel_has_iff)
  from parallel_on_invoked_subset [OF get ne assms(2)] assms(3)
  have "\<exists>h \<in> set l. thrown_by (beh h d) \<noteq> None" by auto
  with parallel_on_rejected_iff [OF get ne, of beh d t] obtain t' e where
    rej: "settled (parallel_on beh hooks name d True t) = Rejected t' e" by blast
  from parallel_on_rejected_wraps [OF get ne rej] rej get show ?thesis by auto
qed


text \<open>
  C3, as stated, fails on the code in concurrent mode. With callbacks 1 and 2 under
  \<open>"x"\<close>, \<open>on("x", data, true)\<close> invokes callback 2, which rejects with
  \<open>new Error("boom")\<close>; but \<open>Promise.all\<close> was already rejected with the string that
  callback 1 rejected with, so the message is the generic one and does not contain
  \<open>"boom"\<close>.
\<close>

theorem on_concurrent_reports_first_failure_counterexample:
  "(2, 0) \<in> set (invoked (parallel_on beh_two_failures [(''x'', [1, 2])] ''x'' () True 0))
   \<and> thrown_by (beh_two_failures 2 ()) = Some (ErrorValue (new_Error ''boom''))
   \<and> settled (parallel_on beh_two_failures [(''x'', [1, 2])] ''x'' () True 0)
       = Rejected 1 (new_HookError ''Unknown error in hook \"x\"'')
   \<and> \<not> sublist ''boom'' (error_message (new_HookError ''Unknown error in hook \"x\"''))"
  by (simp add: parallel_on_def beh_two_failures_def Promise_resolve_call_def Promise_all_def
        await_def try_catch_def rethrow_def thrown_by_def new_HookError_def sublist_code)

text \<open>
  C3, amended. In every variant, when \<open>on(name, data)\<close> invokes a callback that throws
  or rejects, its promise is rejected with a \<open>HookError\<close> made by the catch block from
  one failure: in the basic, scoped and priority managers and in the sequential mode of
  the parallel manager from the failure of that callback (there the failing callback is
  the last one invoked), in concurrent mode from the failure of some callback of the
  list (the one \<open>Promise.all\<close> was rejected with, or the one that threw inside
  \<open>map\<close>). The error made from an \<open>Error\<close> object has a message that contains the
  hook name (for the scoped manager the prefixed name, which contains the caller's name)
  and the message of that object; the error made from any other value has the message
  \<open>Unknown error in hook "name"\<close>, which contains the hook name and does not depend on
  the value.
\<close>

theorem on_wraps_reported_failure:
  "(Map_get hooks name = Some hook \<and> thrown_by (beh hook data) = Some v \<longrightarrow>
      (\<exists>t'. settled (basic_on beh hooks name data t) = Rejected t' (rethrow name v)))
   \<and> (Map_get manager (scoped_name pfx name) = Some hook \<and> thrown_by (beh hook data) = Some v \<longrightarrow>
      (\<exists>t'. settled (scoped_on beh pfx manager name data t)
               = Rejected t' (rethrow (scoped_name pfx name) v)))
   \<and> (priority_has phooks name
        \<and> (h, t0) \<in> set (invoked (priority_on beh phooks name data t))
        \<and> thrown_by (beh h data) = Some v \<longrightarrow>
      (\<exists>t'. settled (priority_on beh phooks name data t) = Rejected t' (rethrow name v)))
   \<and> (parallel_has lhooks name
        \<and> (h, t0) \<in> set (invoked (parallel_on beh lhooks name data False t))
        \<and> thrown_by (beh h data) = Some v \<longrightarrow>
      (\<exists>t'. settled (parallel_on beh lhooks name data False t) = Rejected t' (rethrow name v)))
   \<and> (parallel_has lhooks name
        \<and> (h, t0) \<in> set (invoked (parallel_on beh lhooks name data True t))
        \<and> thrown_by (beh h data) = Some v \<longrightarrow>
      (\<exists>t' h' v'. settled (parallel_on beh lhooks name data True t) = Rejected t' (rethrow name v')
          \<and> h' \<in> set (the (Map_get lhooks name)) \<and> thrown_by (beh h' data) = Some v'))
   \<and> class_of (rethrow name v) = HookError
   \<and> sublist name (error_message (rethrow name v))
   \<and> sublist name (error_message (rethrow (scoped_name pfx name) v))
   \<and> sublist (error_message e) (error_message (rethrow name (ErrorValue e)))
   \<and> error_message (rethrow name (OtherValue x)) = ''Unknown error in hook \"'' @ name @ ''\"''
   \<and> rethrow name (OtherValue x) = rethrow name (OtherValue y)"
proof (intro conjI impI)
  assume "Map_get hooks name = Some hook \<and> thrown_by (beh hook data) = Some v"
  then show "\<exists>t'. settled (basic_on beh hooks name data t) = Rejected t' (rethrow name v)"
    using basic_on_thrown [where beh=beh and d=data] by blast
next
  assume "Map_get manager (scoped_name pfx name) = Some hook \<and> thrown_by (beh hook data) = Some v"
  then show "\<exists>t'. settled (scoped_on beh pfx manager name data t)
               = Rejected t' (rethrow (scoped_name pfx name) v)"
    unfolding scoped_on_def using basic_on_thrown [where beh=beh and d=data] by blast
next
  assume "priority_has phooks name
        \<and> (h, t0) \<in> set (invoked (priority_on beh phooks name data t))
        \<and> thrown_by (beh h data) = Some v"
  then show "\<exists>t'. settled (priority_on beh phooks name data t) = Rejected t' (rethrow name v)"
    using priority_on_invoked_thrown [where beh=beh and d=data] by blast
next
  assume "parallel_has lhooks name
        \<and> (h, t0) \<in> set (invoked (parallel_on beh lhooks name data False t))
        \<and> thrown_by (beh h data) = Some v"
  then show "\<exists>t'. settled (parallel_on beh lhooks name data False t) = Rejected t' (rethrow name v)"
    using parallel_on_invoked_thrown [where beh=beh and d=data] by blast
next
  assume "parallel_has lhooks name
        \<and> (h, t0) \<in> set (invoked (parallel_on beh lhooks name data True t))
        \<and> thrown_by (beh h data) = Some v"
  then show "\<exists>t' h' v'. settled (parallel_on beh lhooks name data True t) = Rejected t' (rethrow name v')
          \<and> h' \<in> set (the (Map_get lhooks name)) \<and> thrown_by (beh h' data) = Some v'"
    using parallel_on_concurrent_invoked_thrown [where beh=beh and d=data] by blast
next
  show "class_of (rethrow name v) = HookError" by (rule class_of_rethrow)
  show "sublist name (error_message (rethrow name v))" by (rule rethrow_message_has_name)
  show "sublist name (error_message (rethrow (scoped_name pfx name) v))"
    using sublist_scoped_name rethrow_message_has_name by (rule sublist_order.order_trans)
  show "sublist (error_message e) (error_message (rethrow name (ErrorValue e)))"
    by (rule rethrow_message_has_message)
  show "error_message (rethrow name (OtherValue x)) = ''Unknown error in hook \"'' @ name @ ''\"''"
    by (simp add: rethrow_OtherValue new_HookError_def)
  show "rethrow name (OtherValue x) = rethrow name (OtherValue y)"
    by (simp add: rethrow_OtherValue)
qed

text \<open>
  The spec's example in each variant: a callback that fails with \<open>new Error("boom")\<close>
  under \<open>"x"\<close> (under \<open>"login"\<close> in the scope \<open>"user"\<close>) makes \<open>on\<close> fail with a
  message that contains the name and \<open>"boom"\<close>.
\<close>

theorem on_wraps_reported_failure_witness:
  "(\<exists>t'. settled (basic_on beh_mixed [(''x'', 3)] ''x'' () 0)
       = Rejected t' (new_HookError ''Error in hook \"x\": boom''))
   \<and> (\<exists>t'. settled (scoped_on beh_mixed ''user'' [(''user:login'', 3)] ''login'' () 0)
       = Rejected t' (new_HookError ''Error in hook \"user:login\": boom''))
   \<and> (\<exists>t'. settled (priority_on beh_mixed
          [(''x'', [\<lparr>hook_priority = 10, hook_fn = 2\<rparr>, \<lparr>hook_priority = 5, hook_fn = 1\<rparr>])] ''x'' () 0)
       = Rejected t' (new_HookError ''Error in hook \"x\": boom''))
   \<and> (\<exists>t'. settled (parallel_on beh_mixed [(''x'', [2, 1])] ''x'' () False 0)
       = Rejected t' (new_HookError ''Error in hook \"x\": boom''))
   \<and> (\<exists>t' e. settled (parallel_on beh_mixed [(''x'', [2, 1])] ''x'' () True 0) = Rejected t' e)"
proof -
  let ?boom = "ErrorValue (new_Error ''boom'')"
  let ?ph = "[(''x'', [\<lparr>hook_priority = 10, hook_fn = 2\<rparr>, \<lparr>hook_priority = 5, hook_fn = (1::nat)\<rparr>])]"
  let ?lh = "[(''x'', [2, 1::nat])]"
  have msg: "rethrow n ?boom = new_HookError (''Error in hook \"'' @ n @ ''\": boom'')" for n
    by (simp add: rethrow_ErrorValue new_Error_def)
  have b: "Map_get [(''x'', 3::nat)] ''x'' = Some 3 \<and> thrown_by (beh_mixed 3 ()) = Some ?boom"
    by (simp add: beh_mixed_def thrown_by_def)
  have s: "Map_get [(''user:login'', 3::nat)] (scoped_name ''user'' ''login'') = Some 3
      \<and> thrown_by (beh_mixed 3 ()) = Some ?boom"
    by (simp add: beh_mixed_def thrown_by_def scoped_name_def)
  have p: "priority_has ?ph ''x'' \<and> (1, 5) \<in> set (invoked (priority_on beh_mixed ?ph ''x'' () 0))
      \<and> thrown_by (beh_mixed 1 ()) = Some ?boom"
    by (simp add: priority_has_def priority_on_def beh_mixed_def thrown_by_def call_and_await_def
         Promise_resolve_call_def await_def)
  have l: "parallel_has ?lh ''x'' \<and> (1, 5) \<in> set (invoked (parallel_on beh_mixed ?lh ''x'' () False 0))
      \<and> thrown_by (beh_mixed 1 ()) = Some ?boom"
    by (simp add: parallel_has_def parallel_on_def beh_mixed_def thrown_by_def call_and_await_def
         Promise_resolve_call_def await_def)
  have c: "parallel_has ?lh ''x'' \<and> (1, 0) \<in> set (invoked (parallel_on beh_mixed ?lh ''x'' () True 0))
      \<and> thrown_by (beh_mixed 1 ()) = Some ?boom"
    by (simp add: parallel_has_def parallel_on_def beh_mixed_def thrown_by_def
         Promise_resolve_call_def)
  note wb = on_wraps_reported_failure [where beh=beh_mixed and data="()" and t=0
      and hooks="[(''x'', 3)]" and name="''x''" and hook=3 and v="?boom"]
  note ws = on_wraps_reported_failure [where beh=beh_mixed and data="()" and t=0
      and manager="[(''user:login'', 3)]" and pfx="''user''" and name="''login''" and hook=3
      and v="?boom"]
  note wp = on_wraps_reported_failure [where beh=beh_mixed and data="()" and t=0
      and phooks="?ph" and name="''x''" and h=1 and ?t0.0=5 and v="?boom"]
  note wl = on_wraps_reported_failure [where beh=beh_mixed and data="()" and t=0
      and lhooks="?lh" and name="''x''" and h=1 and ?t0.0=5 and v="?boom"]
  note wc = on_wraps_reported_failure [where beh=beh_mixed and data="()" and t=0
      and lhooks="?lh" and name="''x''" and h=1 and ?t0.0=0 and v="?boom"]
  from wb b have r1: "\<exists>t'. settled (basic_on beh_mixed [(''x'', 3)] ''x'' () 0)
       = Rejected t' (rethrow ''x'' ?boom)" by blast
  from ws s have r2: "\<exists>t'. settled (scoped_on beh_mixed ''user'' [(''user:login'', 3)] ''login'' () 0)
       = Rejected t' (rethrow (scoped_name ''user'' ''login'') ?boom)" by blast
  from wp p have r3: "\<exists>t'. settled (priority_on beh_mixed ?ph ''x'' () 0)
       = Rejected t' (rethrow ''x'' ?boom)" by blast
  from wl l have r4: "\<exists>t'. settled (parallel_on beh_mixed ?lh ''x'' () False 0)
       = Rejected t' (rethrow ''x'' ?boom)" by blast
  from wc c have r5: "\<exists>t' e. settled (parallel_on beh_mixed ?lh ''x'' () True 0) = Rejected t' e"
    by blast
  from r1 r2 r3 r4 r5 show ?thesis
    by (simp add: msg scoped_name_def)
qed

section \<open>The classes of the errors that the managers raise\<close>

lemma try_catch_Rejected: "try_catch name a = Rejected t' e \<Longrightarrow> \<exists>v. e = rethrow name v"
  by (auto simp: try_catch_def split: awaited.splits)

lemma basic_on_Rejected:
  "settled (basic_on beh hooks name d t) = Rejected t' e \<Longrightarrow>
     e = new_HookNotFoundError name \<or> (\<exists>v. e = rethrow name v)"
  by (auto simp: basic_on_def split: option.splits dest: try_catch_Rejected)

lemma priority_on_Rejected:
  assumes "settled (priority_on beh hooks name d t) = Rejected t' e"
  shows "e = new_HookNotFoundError name \<or> (\<exists>v. e = rethrow name v)"
proof (cases "priority_has hooks name")
  case False
  with assms show ?thesis by (simp add: priority_on_not_found)
next
  case True
  then obtain l where get: "Map_get hooks name = Some l" and ne: "l \<noteq> []"
    by (auto simp: priority_has_iff)
  from assms show ?thesis
    by (auto simp: priority_on_registered [OF get ne] dest: try_catch_Rejected)
qed

lemma parallel_on_Rejected:
  assumes "settled (parallel_on beh hooks name d par t) = Rejected t' e"
  shows "e = new_HookNotFoundError name \<or> (\<exists>v. e = rethrow name v)"
proof (cases "parallel_has hooks name")
  case False
  with assms show ?thesis by (simp add: parallel_on_not_found)
next
  case True
  then obtain l where get: "Map_get hooks name = Some l" and ne: "l \<noteq> []"
    by (auto simp: parallel_has_iff)
  show ?thesis
  proof (cases par)
    case False
    with assms show ?thesis
      by (auto simp: parallel_on_sequential [OF get ne] dest: try_catch_Rejected)
  next
    case True
    with assms parallel_on_rejected_wraps [OF get ne, of beh d t t' e] show ?thesis
      by auto
  qed
qed

text \<open>
  C4, as stated, fails on the code: there is no class for execution failures. The error
  that \<open>on\<close> raises when a callback throws is made by \<open>new HookError(...)\<close>, the base
  class itself, so it is not of a class below the base, and a handler for its class
  also catches a HookNotFoundError.
\<close>

theorem execution_error_is_base_class_counterexample:
  "settled (basic_on beh_mixed [(''x'', 3)] ''x'' () 0)
     = Rejected 0 (new_HookError ''Error in hook \"x\": boom'')
   \<and> \<not> specialization_of (class_of (new_HookError ''Error in hook \"x\": boom'')) HookError
   \<and> instanceof (new_HookNotFoundError ''x'')
        (class_of (new_HookError ''Error in hook \"x\": boom''))"
  by (simp add: basic_on_def beh_mixed_def call_and_await_def Promise_resolve_call_def
        try_catch_def rethrow_def instanceof_def new_Error_def new_HookError_def
        new_HookNotFoundError_def specialization_of_def)

text \<open>
  C4, amended. Every error that an operation of a manager raises is an instance of the
  base class \<open>HookError\<close>: \<open>register\<close> of the basic and the scoped manager raises only
  a \<open>DuplicateHookError\<close>, every \<open>on\<close> raises only a \<open>HookNotFoundError\<close> or the
  error of the catch block. \<open>HookNotFoundError\<close> and \<open>DuplicateHookError\<close> are classes
  below \<open>HookError\<close>, and neither is an instance of the other; the error of the catch
  block is of the class \<open>HookError\<close> itself. The three kinds carry the three different
  \<open>name\<close> tags \<open>"HookError"\<close>, \<open>"HookNotFoundError"\<close> and \<open>"DuplicateHookError"\<close>,
  so a caller can catch all of them by the base class and tell them apart by the tag.
\<close>

theorem manager_errors_are_HookErrors:
  "(fst (basic_register hooks name fn) = Inl e \<longrightarrow> e = new_DuplicateHookError name)
   \<and> (fst (scoped_register pfx hooks name fn) = Inl e \<longrightarrow>
        e = new_DuplicateHookError (scoped_name pfx name))
   \<and> (settled (basic_on beh hooks name data t) = Rejected t' e \<longrightarrow>
        e = new_HookNotFoundError name \<or> (\<exists>v. e = rethrow name v))
   \<and> (settled (scoped_on beh pfx hooks name data t) = Rejected t' e \<longrightarrow>
        e = new_HookNotFoundError (scoped_name pfx name)
        \<or> (\<exists>v. e = rethrow (scoped_name pfx name) v))
   \<and> (settled (priority_on beh phooks name data t) = Rejected t' e \<longrightarrow>
        e = new_HookNotFoundError name \<or> (\<exists>v. e = rethrow name v))
   \<and> (settled (parallel_on beh lhooks name data par t) = Rejected t' e \<longrightarrow>
        e = new_HookNotFoundError name \<or> (\<exists>v. e = rethrow name v))
   \<and> instanceof (new_DuplicateHookError n) HookError
   \<and> instanceof (new_HookNotFoundError n) HookError
   \<and> instanceof (rethrow n v) HookError
   \<and> specialization_of (class_of (new_DuplicateHookError n)) HookError
   \<and> specialization_of (class_of (new_HookNotFoundError n)) HookError
   \<and> class_of (rethrow n v) = HookError
   \<and> \<not> instanceof (new_DuplicateHookError n) HookNotFoundError
   \<and> \<not> instanceof (new_HookNotFoundError n) DuplicateHookError
   \<and> \<not> instanceof (rethrow n v) HookNotFoundError
   \<and> \<not> instanceof (rethrow n v) DuplicateHookError
   \<and> error_name (new_DuplicateHookError n) = ''DuplicateHookError''
   \<and> error_name (new_HookNotFoundError n) = ''HookNotFoundError''
   \<and> error_name (rethrow n v) = ''HookError''"
proof (intro conjI impI)
  assume "fst (basic_register hooks name fn) = Inl e"
  then show "e = new_DuplicateHookError name"
    by (auto simp: basic_register_def split: if_splits)
next
  assume "fst (scoped_register pfx hooks name fn) = Inl e"
  then show "e = new_DuplicateHookError (scoped_name pfx name)"
    by (auto simp: scoped_register_def basic_register_def split: if_splits)
next
  assume "settled (basic_on beh hooks name data t) = Rejected t' e"
  then show "e = new_HookNotFoundError name \<or> (\<exists>v. e = rethrow name v)"
    by (rule basic_on_Rejected)
next
  assume "settled (scoped_on beh pfx hooks name data t) = Rejected t' e"
  then show "e = new_HookNotFoundError (scoped_name pfx name)
        \<or> (\<exists>v. e = rethrow (scoped_name pfx name) v)"
    unfolding scoped_on_def by (rule basic_on_Rejected)
next
  assume "settled (priority_on beh phooks name data t) = Rejected t' e"
  then show "e = new_HookNotFoundError name \<or> (\<exists>v. e = rethrow name v)"
    by (rule priority_on_Rejected)
next
  assume "settled (parallel_on beh lhooks name data par t) = Rejected t' e"
  then show "e = new_HookNotFoundError name \<or> (\<exists>v. e = rethrow name v)"
    by (rule parallel_on_Rejected)
next
  have c: "class_of (rethrow n v) = HookError" by (rule class_of_rethrow)
  show "instanceof (new_DuplicateHookError n) HookError"
    and "instanceof (new_HookNotFoundError n) HookError"
    and "specialization_of (class_of (new_DuplicateHookError n)) HookError"
    and "specialization_of (class_of (new_HookNotFoundError n)) HookError"
    and "\<not> instanceof (new_DuplicateHookError n) HookNotFoundError"
    and "\<not> instanceof (new_HookNotFoundError n) DuplicateHookError"
    and "error_name (new_DuplicateHookError n) = ''DuplicateHookError''"
    and "error_name (new_HookNotFoundError n) = ''HookNotFoundError''"
    by (simp_all add: instanceof_def specialization_of_def new_DuplicateHookError_def
          new_HookNotFoundError_def)
  show "class_of (rethrow n v) = HookError" by (rule c)
  show "instanceof (rethrow n v) HookError"
    and "\<not> instanceof (rethrow n v) HookNotFoundError"
    and "\<not> instanceof (rethrow n v) DuplicateHookError"
    by (simp_all add: instanceof_def c)
  show "error_name (rethrow n v) = ''HookError''"
    by (cases v) (simp_all add: rethrow_def new_HookError_def)
qed

text \<open>
  A second registration of \<open>"x"\<close>, and \<open>on\<close> for a name that has no callback: the
  errors are the two subclasses' and both are instances of \<open>HookError\<close>.
\<close>

theorem manager_errors_are_HookErrors_witness:
  "fst (basic_register [(''x'', 1)] ''x'' 2) = Inl (new_DuplicateHookError ''x'')
   \<and> instanceof (new_DuplicateHookError ''x'') HookError
   \<and> settled (basic_on beh_mixed [(''x'', 1)] ''y'' () 0) = Rejected 0 (new_HookNotFoundError ''y'')
   \<and> instanceof (new_HookNotFoundError ''y'') HookError
   \<and> settled (basic_on beh_mixed [(''x'', 1)] ''x'' () 0)
       = Rejected 1 (rethrow ''x'' (ErrorValue (new_Error ''boom'')))
   \<and> class_of (rethrow ''x'' (ErrorValue (new_Error ''boom''))) = HookError"
proof -
  have r: "fst (basic_register [(''x'', 1)] ''x'' 2) = Inl (new_DuplicateHookError ''x'')"
    by (simp add: basic_register_def)
  have o: "settled (basic_on beh_mixed [(''x'', 1)] ''y'' () 0)
      = Rejected 0 (new_HookNotFoundError ''y'')"
    by (simp add: basic_on_def)
  have x: "settled (basic_on beh_mixed [(''x'', 1)] ''x'' () 0)
       = Rejected 1 (rethrow ''x'' (ErrorValue (new_Error ''boom'')))"
    by (simp add: basic_on_def beh_mixed_def call_and_await_def Promise_resolve_call_def
          await_def try_catch_def)
  note w2 = manager_errors_are_HookErrors [where hooks="[(''x'', 1)]" and name="''y''" and fn=2
      and beh=beh_mixed and data="()" and t=0 and t'=0 and e="new_HookNotFoundError ''y''"
      and n="''y''" and pfx="[]" and phooks="[]" and lhooks="[]" and par=False
      and v="ErrorValue (new_Error ''boom'')"]
  note w3 = manager_errors_are_HookErrors [where hooks="[(''x'', 1)]" and name="''x''" and fn=2
      and beh=beh_mixed and data="()" and t=0 and t'=1
      and e="rethrow ''x'' (ErrorValue (new_Error ''boom''))"
      and n="''x''" and pfx="[]" and phooks="[]" and lhooks="[]" and par=False
      and v="ErrorValue (new_Error ''boom'')"]
  from w2 have nf: "instanceof (new_HookNotFoundError ''y'') HookError" by (elim conjE)
  from w3 have dup: "instanceof (new_DuplicateHookError ''x'') HookError" by (elim conjE)
  from w3 have cl: "class_of (rethrow ''x'' (ErrorValue (new_Error ''boom''))) = HookError"
    by (elim conjE)
  from r dup o nf x cl show ?thesis by simp
qed

section \<open>Unregistering in the list-based managers\<close>

lemma Map_delete_absent: "\<not> Map_has m k \<Longrightarrow> Map_delete m k = m"
  by (induction m) (auto simp: Map_delete_def)

lemma Map_has_delete: "\<not> Map_has (Map_delete m k) k"
  by (simp add: Map_has_get Map_get_delete)

lemma priority_unregister_all:
  "priority_unregister hooks name None = (Map_has hooks name, Map_delete hooks name)"
  by (simp add: priority_unregister_def Map_delete_absent)

lemma priority_unregister_one:
  "Map_get hooks name = Some l \<Longrightarrow>
     priority_unregister hooks name (Some fn) =
       (length l \<noteq> length (filter (\<lambda>hook. hook_fn hook \<noteq> fn) l),
        if filter (\<lambda>hook. hook_fn hook \<noteq> fn) l = []
        then Map_delete (Map_set hooks name []) name
        else Map_set hooks name (filter (\<lambda>hook. hook_fn hook \<noteq> fn) l))"
  by (simp add: priority_unregister_def Map_has_get Let_def)

lemma priority_unregister_absent:
  "Map_get hooks name = None \<Longrightarrow> priority_unregister hooks name fn_arg = (False, hooks)"
  by (simp add: priority_unregister_def Map_has_get)

lemma priority_unregister_other:
  "other \<noteq> name \<Longrightarrow>
     Map_get (snd (priority_unregister hooks name fn_arg)) other = Map_get hooks other"
  by (auto simp: priority_unregister_def Let_def Map_get_delete Map_get_set split: option.splits)

lemma parallel_unregister_all:
  "parallel_unregister hooks name None = (Map_has hooks name, Map_delete hooks name)"
  by (simp add: parallel_unregister_def Map_delete_absent)

lemma parallel_unregister_one:
  "Map_get hooks name = Some l \<Longrightarrow>
     parallel_unregister hooks name (Some fn) =
       (length l \<noteq> length (filter (\<lambda>hook. hook \<noteq> fn) l),
        if filter (\<lambda>hook. hook \<noteq> fn) l = []
        then Map_delete (Map_set hooks name []) name
        else Map_set hooks name (filter (\<lambda>hook. hook \<noteq> fn) l))"
  by (simp add: parallel_unregister_def Map_has_get Let_def)

lemma parallel_unregister_absent:
  "Map_get hooks name = None \<Longrightarrow> parallel_unregister hooks name fn_arg = (False, hooks)"
  by (simp add: parallel_unregister_def Map_has_get)

lemma parallel_unregister_other:
  "other \<noteq> name \<Longrightarrow>
     Map_get (snd (parallel_unregister hooks name fn_arg)) other = Map_get hooks other"
  by (auto simp: parallel_unregister_def Let_def Map_get_delete Map_get_set split: option.splits)

lemma length_filter_neq: "(length l \<noteq> length (filter P l)) = (length (filter P l) < length l)"
  using length_filter_le [of P l] by arith

text \<open>
  C6. In the priority and the parallel hook manager, \<open>unregister(name)\<close> without a
  callback deletes the entry of \<open>name\<close> and returns whether there was one;
  \<open>unregister(name, fn)\<close> replaces the list of \<open>name\<close> by the list without the entries
  whose callback is \<open>fn\<close>, the other entries staying in their order, deletes the name
  when nothing is left, and returns whether the list became shorter; a later \<open>on(name)\<close>
  runs over the entries that are left. The entries of other names are not touched, and
  for a name without an entry the call returns \<open>false\<close> and changes nothing.
\<close>

theorem unregister_removes_only_matching:
  "fst (priority_unregister hooks name None) = Map_has hooks name
   \<and> Map_get (snd (priority_unregister hooks name None)) name = None
   \<and> \<not> priority_has (snd (priority_unregister hooks name None)) name
   \<and> (other \<noteq> name \<longrightarrow>
        Map_get (snd (priority_unregister hooks name fn_arg)) other = Map_get hooks other)
   \<and> (Map_get hooks name = None \<longrightarrow> priority_unregister hooks name fn_arg = (False, hooks))
   \<and> (Map_get hooks name = Some hooksList \<longrightarrow>
         Map_get (snd (priority_unregister hooks name (Some fn))) name
           = (if filter (\<lambda>hook. hook_fn hook \<noteq> fn) hooksList = [] then None
              else Some (filter (\<lambda>hook. hook_fn hook \<noteq> fn) hooksList))
       \<and> fst (priority_unregister hooks name (Some fn))
           = (length (filter (\<lambda>hook. hook_fn hook \<noteq> fn) hooksList) < length hooksList)
       \<and> (filter (\<lambda>hook. hook_fn hook \<noteq> fn) hooksList \<noteq> [] \<longrightarrow>
            priority_on beh (snd (priority_unregister hooks name (Some fn))) name data t
              = \<lparr>invoked = fst (for_await beh
                     (map hook_fn (filter (\<lambda>hook. hook_fn hook \<noteq> fn) hooksList)) data t),
                 settled = try_catch name (snd (for_await beh
                     (map hook_fn (filter (\<lambda>hook. hook_fn hook \<noteq> fn) hooksList)) data t))\<rparr>))
   \<and> fst (parallel_unregister lhooks name None) = Map_has lhooks name
   \<and> Map_get (snd (parallel_unregister lhooks name None)) name = None
   \<and> \<not> parallel_has (snd (parallel_unregister lhooks name None)) name
   \<and> (other \<noteq> name \<longrightarrow>
        Map_get (snd (parallel_unregister lhooks name fn_arg)) other = Map_get lhooks other)
   \<and> (Map_get lhooks name = None \<longrightarrow> parallel_unregister lhooks name fn_arg = (False, lhooks))
   \<and> (Map_get lhooks name = Some fns \<longrightarrow>
         Map_get (snd (parallel_unregister lhooks name (Some fn))) name
           = (if filter (\<lambda>hook. hook \<noteq> fn) fns = [] then None
              else Some (filter (\<lambda>hook. hook \<noteq> fn) fns))
       \<and> fst (parallel_unregister lhooks name (Some fn))
           = (length (filter (\<lambda>hook. hook \<noteq> fn) fns) < length fns)
       \<and> (filter (\<lambda>hook. hook \<noteq> fn) fns \<noteq> [] \<longrightarrow>
            parallel_on beh (snd (parallel_unregister lhooks name (Some fn))) name data False t
              = \<lparr>invoked = fst (for_await beh (filter (\<lambda>hook. hook \<noteq> fn) fns) data t),
                 settled = try_catch name
                   (snd (for_await beh (filter (\<lambda>hook. hook \<noteq> fn) fns) data t))\<rparr>))"
proof (intro conjI impI)
  show "fst (priority_unregister hooks name None) = Map_has hooks name"
    and "Map_get (snd (priority_unregister hooks name None)) name = None"
    and "\<not> priority_has (snd (priority_unregister hooks name None)) name"
    by (simp_all add: priority_unregister_all Map_get_delete priority_has_iff)
  show "fst (parallel_unregister lhooks name None) = Map_has lhooks name"
    and "Map_get (snd (parallel_unregister lhooks name None)) name = None"
    and "\<not> parallel_has (snd (parallel_unregister lhooks name None)) name"
    by (simp_all add: parallel_unregister_all Map_get_delete parallel_has_iff)
next
  assume "other \<noteq> name"
  then show "Map_get (snd (priority_unregister hooks name fn_arg)) other = Map_get hooks other"
    by (rule priority_unregister_other)
next
  assume "other \<noteq> name"
  then show "Map_get (snd (parallel_unregister lhooks name fn_arg)) other = Map_get lhooks other"
    by (rule parallel_unregister_other)
next
  assume "Map_get hooks name = None"
  then show "priority_unregister hooks name fn_arg = (False, hooks)"
    by (rule priority_unregister_absent)
next
  assume "Map_get lhooks name = None"
  then show "parallel_unregister lhooks name fn_arg = (False, lhooks)"
    by (rule parallel_unregister_absent)
next
  assume get: "Map_get hooks name = Some hooksList"
  let ?left = "filter (\<lambda>hook. hook_fn hook \<noteq> fn) hooksList"
  show g: "Map_get (snd (priority_unregister hooks name (Some fn))) name
           = (if ?left = [] then None else Some ?left)"
    by (simp add: priority_unregister_one [OF get] Map_get_delete Map_get_set)
  show "fst (priority_unregister hooks name (Some fn)) = (length ?left < length hooksList)"
    by (simp add: priority_unregister_one [OF get] length_filter_neq)
  assume ne: "?left \<noteq> []"
  with g have "Map_get (snd (priority_unregister hooks name (Some fn))) name = Some ?left"
    by simp
  from priority_on_registered [OF this ne]
  show "priority_on beh (snd (priority_unregister hooks name (Some fn))) name data t
              = \<lparr>invoked = fst (for_await beh (map hook_fn ?left) data t),
                 settled = try_catch name (snd (for_await beh (map hook_fn ?left) data t))\<rparr>" .
next
  assume get: "Map_get lhooks name = Some fns"
  let ?left = "filter (\<lambda>hook. hook \<noteq> fn) fns"
  show g: "Map_get (snd (parallel_unregister lhooks name (Some fn))) name
           = (if ?left = [] then None else Some ?left)"
    by (simp add: parallel_unregister_one [OF get] Map_get_delete Map_get_set)
  show "fst (parallel_unregister lhooks name (Some fn)) = (length ?left < length fns)"
    by (simp add: parallel_unregister_one [OF get] length_filter_neq)
  assume ne: "?left \<noteq> []"
  with g have "Map_get (snd (parallel_unregister lhooks name (Some fn))) name = Some ?left"
    by simp
  from parallel_on_sequential [OF this ne]
  show "parallel_on beh (snd (parallel_unregister lhooks name (Some fn))) name data False t
              = \<lparr>invoked = fst (for_await beh ?left data t),
                 settled = try_catch name (snd (for_await beh ?left data t))\<rparr>" .
qed

text \<open>
  Callbacks 4, 5 and 4 again under \<open>"x"\<close> and callback 6 under \<open>"y"\<close>:
  \<open>unregister("x", 4)\<close> leaves callback 5 under \<open>"x"\<close>, returns \<open>true\<close>, and \<open>on("x")\<close>
  then calls callback 5 only; \<open>"y"\<close> keeps its callback.
\<close>

theorem unregister_removes_only_matching_witness:
  "Map_get [(''x'', [4, 5, 4]), (''y'', [6])] ''x'' = Some [4, 5, 4]
   \<and> Map_get (snd (parallel_unregister [(''x'', [4, 5, 4]), (''y'', [6])] ''x'' (Some 4))) ''x''
       = Some [5]
   \<and> fst (parallel_unregister [(''x'', [4, 5, 4]), (''y'', [6])] ''x'' (Some 4))
   \<and> Map_get (snd (parallel_unregister [(''x'', [4, 5, 4]), (''y'', [6])] ''x'' (Some 4))) ''y''
       = Some [6]
   \<and> invoked (parallel_on (\<lambda>h d. Returns)
        (snd (parallel_unregister [(''x'', [4, 5, 4]), (''y'', [6])] ''x'' (Some 4))) ''x'' () False 0)
       = [(5, 0)]"
proof -
  let ?lh = "[(''x'', [4, 5, 4::nat]), (''y'', [6])]"
  have get: "Map_get ?lh ''x'' = Some [4, 5, 4]" by simp
  have other: "''y'' \<noteq> ''x''" by simp
  have left: "filter (\<lambda>hook. hook \<noteq> 4) [4, 5, 4::nat] = [5]" by simp
  note w = unregister_removes_only_matching [where lhooks="?lh" and name="''x''" and fn=4
      and fns="[4, 5, 4]" and other="''y''" and fn_arg="Some 4" and beh="\<lambda>h d. Returns"
      and data="()" and t=0 and hooks="[]" and hooksList="[]"]
  from w get have a: "Map_get (snd (parallel_unregister ?lh ''x'' (Some 4))) ''x''
           = (if filter (\<lambda>hook. hook \<noteq> 4) [4, 5, 4::nat] = [] then None
              else Some (filter (\<lambda>hook. hook \<noteq> 4) [4, 5, 4]))"
    by blast
  from w get have b: "fst (parallel_unregister ?lh ''x'' (Some 4))
           = (length (filter (\<lambda>hook. hook \<noteq> 4) [4, 5, 4::nat]) < length [4, 5, 4::nat])"
    by blast
  from w other have c: "Map_get (snd (parallel_unregister ?lh ''x'' (Some 4))) ''y''
       = Map_get ?lh ''y''"
    by blast
  from w get left have d: "parallel_on (\<lambda>h d. Returns)
        (snd (parallel_unregister ?lh ''x'' (Some 4))) ''x'' () False 0
      = \<lparr>invoked = fst (for_await (\<lambda>h d. Returns) (filter (\<lambda>hook. hook \<noteq> 4) [4, 5, 4]) () 0),
         settled = try_catch ''x''
           (snd (for_await (\<lambda>h d. Returns) (filter (\<lambda>hook. hook \<noteq> 4) [4, 5, 4]) () 0))\<rparr>"
    by simp
  from a b c d get show ?thesis
    by (simp add: call_and_await_def Promise_resolve_call_def await_def)
qed

section \<open>The name in the scoped manager's HookNotFoundError\<close>

lemma scoped_name_neq: "scoped_name pfx name \<noteq> name"
proof
  assume "scoped_name pfx name = name"
  then have "length (scoped_name pfx name) = length name" by simp
  then show False by (simp add: scoped_name_def)
qed

text \<open>
  C10. In a scoped manager with prefix \<open>p\<close>, \<open>on(n)\<close> for a name without a callback
  calls no callback and is rejected with the HookNotFoundError of the inner manager,
  whose message \<open>Hook "p:n" is not registered\<close> names the translated name and is not
  the message for \<open>n\<close>.
\<close>

theorem scoped_on_not_found_names_prefixed:
  assumes "\<not> scoped_has pfx manager name"
  shows "scoped_on beh pfx manager name data t
           = \<lparr>invoked = [], settled = Rejected t (new_HookNotFoundError (pfx @ '':'' @ name))\<rparr>
       \<and> error_message (new_HookNotFoundError (pfx @ '':'' @ name))
           = ''Hook \"'' @ pfx @ '':'' @ name @ ''\" is not registered''
       \<and> sublist (pfx @ '':'' @ name) (error_message (new_HookNotFoundError (pfx @ '':'' @ name)))
       \<and> error_message (new_HookNotFoundError (pfx @ '':'' @ name))
           \<noteq> error_message (new_HookNotFoundError name)"
proof -
  from assms have "Map_get manager (scoped_name pfx name) = None"
    by (simp add: scoped_has_def basic_has_def Map_has_get)
  then have on: "scoped_on beh pfx manager name data t
      = \<lparr>invoked = [], settled = Rejected t (new_HookNotFoundError (pfx @ '':'' @ name))\<rparr>"
    by (simp add: scoped_on_def basic_on_def scoped_name_def)
  have "sublist (pfx @ '':'' @ name) (''Hook \"'' @ (pfx @ '':'' @ name) @ ''\" is not registered'')"
    by (rule sublist_appendI)
  then have sub: "sublist (pfx @ '':'' @ name)
      (error_message (new_HookNotFoundError (pfx @ '':'' @ name)))"
    by (simp add: new_HookNotFoundError_def)
  have "pfx @ '':'' @ name \<noteq> name"
    using scoped_name_neq [of pfx name] by (simp add: scoped_name_def)
  then have neq: "error_message (new_HookNotFoundError (pfx @ '':'' @ name))
           \<noteq> error_message (new_HookNotFoundError name)"
    by (simp add: new_HookNotFoundError_def)
  from on sub neq show ?thesis
    by (simp add: new_HookNotFoundError_def)
qed

text \<open>The scope \<open>"user"\<close> with nothing registered: \<open>on("login")\<close> names \<open>"user:login"\<close>.\<close>

theorem scoped_on_not_found_names_prefixed_witness:
  "\<not> scoped_has ''user'' [] ''login''
   \<and> settled (scoped_on (\<lambda>h d. Returns) ''user'' [] ''login'' () 0)
       = Rejected 0 (new_HookNotFoundError ''user:login'')
   \<and> error_message (new_HookNotFoundError ''user:login'')
       = ''Hook \"user:login\" is not registered''"
proof -
  have h: "\<not> scoped_has ''user'' [] ''login''"
    by (simp add: scoped_has_def basic_has_def)
  from scoped_on_not_found_names_prefixed [OF h, of "\<lambda>h d. Returns" "()" 0] h
  show ?thesis by simp
qed

section \<open>No empty list is stored\<close>
























section \<open>The scoped manager translates names\<close>

lemma startsWith_scoped_name: "startsWith (scoped_name pfx name) (pfx @ '':'')"
  by (simp add: startsWith_def scoped_name_def)

lemma substring_scoped_name: "substring (scoped_name pfx name) (Suc (length pfx)) = name"
  by (simp add: substring_def scoped_name_def)

lemma startsWith_rebuild:
  "startsWith k (pfx @ '':'') \<Longrightarrow> scoped_name pfx (substring k (Suc (length pfx))) = k"
proof -
  assume "startsWith k (pfx @ '':'')"
  then have "take (Suc (length pfx)) k = pfx @ '':''" by (simp add: startsWith_def)
  then have "(pfx @ '':'') @ drop (Suc (length pfx)) k = k"
    by (metis append_take_drop_id)
  then show ?thesis by (simp add: scoped_name_def substring_def)
qed

lemma scoped_has_iff_listed:
  "scoped_has pfx manager name = (name \<in> set (scoped_list pfx manager))"
proof
  assume "scoped_has pfx manager name"
  then have "scoped_name pfx name \<in> set (basic_list manager)"
    by (simp add: scoped_has_def basic_has_def basic_list_def Map_has_keys)
  then have "substring (scoped_name pfx name) (Suc (length pfx)) \<in> set (scoped_list pfx manager)"
    unfolding scoped_list_def using startsWith_scoped_name [of pfx name] by auto
  then show "name \<in> set (scoped_list pfx manager)"
    by (simp add: substring_scoped_name)
next
  assume "name \<in> set (scoped_list pfx manager)"
  then obtain k where k: "k \<in> set (basic_list manager)" "startsWith k (pfx @ '':'')"
    and n: "name = substring k (Suc (length pfx))"
    by (auto simp: scoped_list_def)
  from startsWith_rebuild [OF k(2)] n have "scoped_name pfx name = k" by simp
  with k(1) show "scoped_has pfx manager name"
    by (simp add: scoped_has_def basic_has_def basic_list_def Map_has_keys)
qed


lemma scoped_call_prefixed:
  assumes "all_prefixed pfx manager"
  shows "all_prefixed pfx (scoped_call pfx c manager)"
proof (cases c)
  case (Register name fn p)
  with assms show ?thesis
    by (auto simp: all_prefixed_def scoped_register_def basic_register_def Map_keys_set
          startsWith_scoped_name)
next
  case (Unregister name fn_arg)
  with assms show ?thesis
    by (auto simp: all_prefixed_def scoped_unregister_def basic_unregister_def Map_keys_delete
          list_all_iff)
next
  case (On name)
  with assms show ?thesis by simp
qed

lemma scoped_calls_prefixed:
  "all_prefixed pfx manager \<Longrightarrow> all_prefixed pfx (fold (scoped_call pfx) calls manager)"
  by (induction calls arbitrary: manager) (simp_all add: scoped_call_prefixed)

lemma scoped_list_rebuild:
  assumes "all_prefixed pfx manager"
  shows "map (scoped_name pfx) (scoped_list pfx manager) = basic_list manager"
proof -
  from assms have all: "\<forall>k \<in> set (Map_keys manager). startsWith k (pfx @ '':'')"
    by (simp add: all_prefixed_def list_all_iff)
  then have "filter (\<lambda>name. startsWith name (pfx @ '':'')) (Map_keys manager) = Map_keys manager"
    by (simp add: filter_id_conv)
  then have "map (scoped_name pfx) (scoped_list pfx manager)
      = map (\<lambda>k. scoped_name pfx (substring k (Suc (length pfx)))) (Map_keys manager)"
    by (simp add: scoped_list_def basic_list_def comp_def)
  also from all have "\<dots> = map (\<lambda>k. k) (Map_keys manager)"
    by (intro map_cong) (simp_all add: startsWith_rebuild)
  finally show ?thesis by (simp add: basic_list_def)
qed

text \<open>
  C7. A scoped manager with prefix \<open>p\<close> hands every \<open>register\<close>, \<open>unregister\<close>,
  \<open>has\<close> and \<open>on\<close> call on a name \<open>n\<close> to its inner basic manager under the name
  \<open>p:n\<close>. After any sequence of calls on a fresh scoped manager, \<open>list()\<close> returns the
  names of the inner manager, in their order, with the prefix and the colon taken off,
  and they are the names for which \<open>has\<close> holds. With the prefix \<open>"user"\<close>, after
  \<open>register("login", fn)\<close>, \<open>list()\<close> is \<open>["login"]\<close> while the inner manager holds
  \<open>"user:login"\<close>, and \<open>on("login")\<close> on the inner manager is rejected with a
  HookNotFoundError.
\<close>

theorem scoped_manager_translates_names:
  "scoped_register pfx manager name fn = basic_register manager (pfx @ '':'' @ name) fn
   \<and> scoped_unregister pfx manager name = basic_unregister manager (pfx @ '':'' @ name)
   \<and> scoped_has pfx manager name = basic_has manager (pfx @ '':'' @ name)
   \<and> scoped_on beh pfx manager name data t = basic_on beh manager (pfx @ '':'' @ name) data t
   \<and> scoped_has pfx manager name = (name \<in> set (scoped_list pfx manager))
   \<and> map (\<lambda>n. pfx @ '':'' @ n) (scoped_list pfx (fold (scoped_call pfx) calls []))
       = basic_list (fold (scoped_call pfx) calls [])
   \<and> scoped_list ''user'' (snd (scoped_register ''user'' [] ''login'' fn)) = [''login'']
   \<and> basic_list (snd (scoped_register ''user'' [] ''login'' fn)) = [''user:login'']
   \<and> basic_on beh (snd (scoped_register ''user'' [] ''login'' fn)) ''login'' data t
       = \<lparr>invoked = [], settled = Rejected t (new_HookNotFoundError ''login'')\<rparr>"
proof (intro conjI)
  show "scoped_register pfx manager name fn = basic_register manager (pfx @ '':'' @ name) fn"
    and "scoped_unregister pfx manager name = basic_unregister manager (pfx @ '':'' @ name)"
    and "scoped_has pfx manager name = basic_has manager (pfx @ '':'' @ name)"
    and "scoped_on beh pfx manager name data t = basic_on beh manager (pfx @ '':'' @ name) data t"
    by (simp_all add: scoped_register_def scoped_unregister_def scoped_has_def scoped_on_def
          scoped_name_def)
  show "scoped_has pfx manager name = (name \<in> set (scoped_list pfx manager))"
    by (rule scoped_has_iff_listed)
  have "all_prefixed pfx []" by (simp add: all_prefixed_def Map_keys_def)
  then have "all_prefixed pfx (fold (scoped_call pfx) calls [])"
    by (rule scoped_calls_prefixed)
  from scoped_list_rebuild [OF this]
  show "map (\<lambda>n. pfx @ '':'' @ n) (scoped_list pfx (fold (scoped_call pfx) calls []))
       = basic_list (fold (scoped_call pfx) calls [])"
    by (simp add: scoped_name_def [abs_def])
  have reg: "snd (scoped_register ''user'' [] ''login'' fn) = [(''user:login'', fn)]"
    by (simp add: scoped_register_def basic_register_def scoped_name_def)
  show "scoped_list ''user'' (snd (scoped_register ''user'' [] ''login'' fn)) = [''login'']"
    by (simp add: reg scoped_list_def basic_list_def Map_keys_def startsWith_def substring_def)
  show "basic_list (snd (scoped_register ''user'' [] ''login'' fn)) = [''user:login'']"
    by (simp add: reg basic_list_def Map_keys_def)
  show "basic_on beh (snd (scoped_register ''user'' [] ''login'' fn)) ''login'' data t
       = \<lparr>invoked = [], settled = Rejected t (new_HookNotFoundError ''login'')\<rparr>"
    by (simp add: reg basic_on_def)
qed

text \<open>
  \<open>"login"\<close> and \<open>"logout"\<close> are registered in the scope \<open>"user"\<close> and \<open>"login"\<close> is
  unregistered again: \<open>list()\<close> is \<open>["logout"]\<close>.
\<close>

theorem scoped_manager_translates_names_witness:
  "basic_list (fold (scoped_call ''user'')
      [Register ''login'' 1 None, Register ''logout'' 2 None, Unregister ''login'' None] [])
     = [''user:logout'']
   \<and> scoped_list ''user'' (fold (scoped_call ''user'')
      [Register ''login'' 1 None, Register ''logout'' 2 None, Unregister ''login'' None] [])
     = [''logout'']
   \<and> scoped_has ''user'' (fold (scoped_call ''user'')
      [Register ''login'' 1 None, Register ''logout'' 2 None, Unregister ''login'' None] [])
      ''logout''"
proof -
  let ?calls = "[Register ''login'' 1 None, Register ''logout'' 2 None, Unregister ''login'' None]"
  let ?m = "fold (scoped_call ''user'') ?calls []"
  have ev: "basic_list ?m = [''user:logout'']"
    by (simp add: scoped_register_def scoped_unregister_def basic_register_def
          basic_unregister_def scoped_name_def Map_delete_def basic_list_def Map_keys_def)
  note w = scoped_manager_translates_names [where pfx="''user''" and calls="?calls"
      and manager="?m" and name="''logout''" and fn=1 and beh="\<lambda>h d. Returns" and data="()"
      and t=0]
  from w have "map (\<lambda>n. ''user'' @ '':'' @ n) (scoped_list ''user'' ?m) = basic_list ?m"
    by (elim conjE)
  with ev have "map (\<lambda>n. ''user:'' @ n) (scoped_list ''user'' ?m) = [''user:logout'']"
    by simp
  then have sl: "scoped_list ''user'' ?m = [''logout'']"
    by (auto simp: map_eq_Cons_conv)
  from w have "scoped_has ''user'' ?m ''logout'' = (''logout'' \<in> set (scoped_list ''user'' ?m))"
    by (elim conjE)
  with sl have "scoped_has ''user'' ?m ''logout''" by simp
  with ev sl show ?thesis by simp
qed

end
